theory Spec2Isabelle
  imports Main "HOL-Library.AList"
begin

section \<open>Result (packages/rx/src/Result.ts)\<close>

text \<open>
  A \<open>Result\<close> is the tagged union \<open>Initial | Success | Failure\<close>. Every variant has the
  field \<open>waiting\<close>; \<open>Success\<close> has \<open>value\<close> and \<open>timestamp\<close>; \<open>Failure\<close> has \<open>cause\<close> and
  \<open>previousSuccess\<close> (an \<open>Option\<close> of a Result). The constructor arguments below are in the
  order in which the source assigns the fields.

  \<open>Cause\<close>, \<open>Exit\<close> and \<open>Option\<close> belong to the effect library; only their shape is needed.
\<close>

datatype 'e cause = CEmpty | CFail 'e | CDie string | CInterrupt

datatype ('a, 'e) exit = ExitSuccess 'a | ExitFailure "'e cause"

datatype ('a, 'e) result =
    Initial bool
  | Success 'a bool int
  | Failure "'e cause" "('a, 'e) result option" bool

datatype tag = TagInitial | TagSuccess | TagFailure

text \<open>Exceptions of the language that the modelled functions can raise.\<close>

datatype exn = TypeError | NoSuchElementException

fun tag_of :: "('a, 'e) result \<Rightarrow> tag" where
  "tag_of (Initial w) = TagInitial"
| "tag_of (Success v w t) = TagSuccess"
| "tag_of (Failure c p w) = TagFailure"

fun waiting_of :: "('a, 'e) result \<Rightarrow> bool" where
  "waiting_of (Initial w) = w"
| "waiting_of (Success v w t) = w"
| "waiting_of (Failure c p w) = w"

text \<open>
  Reading the property \<open>value\<close> or \<open>cause\<close> of an arbitrary Result, as the casts in the
  equality method do: \<open>None\<close> stands for \<open>undefined\<close> (the object has no such property).
\<close>

fun prop_value :: "('a, 'e) result \<Rightarrow> 'a option" where
  "prop_value (Success v w t) = Some v"
| "prop_value r = None"

fun prop_cause :: "('a, 'e) result \<Rightarrow> 'e cause option" where
  "prop_cause (Failure c p w) = Some c"
| "prop_cause r = None"

definition isInitial :: "('a, 'e) result \<Rightarrow> bool" where
  "isInitial r = (tag_of r = TagInitial)"

definition isNotInitial :: "('a, 'e) result \<Rightarrow> bool" where
  "isNotInitial r = (tag_of r \<noteq> TagInitial)"

definition isSuccess :: "('a, 'e) result \<Rightarrow> bool" where
  "isSuccess r = (tag_of r = TagSuccess)"

definition isFailure :: "('a, 'e) result \<Rightarrow> bool" where
  "isFailure r = (tag_of r = TagFailure)"

subsection \<open>Constructors\<close>

text \<open>
  An optional argument or an optional property of an options object is an \<open>option\<close>:
  \<open>None\<close> when it is left out. \<open>success\<close> reads the clock (\<open>Date.now()\<close>) when no timestamp
  is given; the clock reading is the argument \<open>now\<close>.
\<close>

definition initial :: "bool option \<Rightarrow> ('a, 'e) result" where
  "initial waiting = Initial (case waiting of None \<Rightarrow> False | Some w \<Rightarrow> w)"

definition success :: "'a \<Rightarrow> bool option \<Rightarrow> int option \<Rightarrow> int \<Rightarrow> ('a, 'e) result" where
  "success v waiting timestamp now =
     Success v (case waiting of None \<Rightarrow> False | Some w \<Rightarrow> w)
               (case timestamp of None \<Rightarrow> now | Some t \<Rightarrow> t)"

definition failure ::
  "'e cause \<Rightarrow> ('a, 'e) result option option \<Rightarrow> bool option \<Rightarrow> ('a, 'e) result" where
  "failure c previousSuccess waiting =
     Failure c (case previousSuccess of None \<Rightarrow> None | Some p \<Rightarrow> p)
               (case waiting of None \<Rightarrow> False | Some w \<Rightarrow> w)"

text \<open>
  The second parameter of \<open>failureWithPrevious\<close> and \<open>failWithPrevious\<close> is declared as the
  options object \<open>{ previous: Option<Result>, waiting?: boolean }\<close>. Two kinds of values
  reach it from Rx.ts: such an object literal (through \<open>fromExitWithPrevious\<close> and
  \<open>replacePrevious\<close>), and, from \<open>makeStream\<close>, the \<open>Option\<close> \<open>previous\<close> itself. An \<open>Option\<close>
  has the properties \<open>_tag\<close> and (for \<open>Some\<close>) \<open>value\<close>: reading \<open>previous\<close> or \<open>waiting\<close> from
  it gives \<open>undefined\<close> (\<open>None\<close> below).
\<close>

record ('a, 'e) previous_options =
  previous :: "('a, 'e) result option"
  waiting :: "bool option"

datatype ('a, 'e) options_argument =
    OptionsObject "('a, 'e) previous_options"
  | OptionObject "('a, 'e) result option"

fun options_previous :: "('a, 'e) options_argument \<Rightarrow> ('a, 'e) result option option" where
  "options_previous (OptionsObject opts) = Some (previous opts)"
| "options_previous (OptionObject p) = None"

fun options_waiting :: "('a, 'e) options_argument \<Rightarrow> bool option" where
  "options_waiting (OptionsObject opts) = waiting opts"
| "options_waiting (OptionObject p) = None"

text \<open>\<open>Option.filter(isSuccess)\<close>.\<close>

definition filter_isSuccess :: "('a, 'e) result option \<Rightarrow> ('a, 'e) result option" where
  "filter_isSuccess p = (case p of None \<Rightarrow> None | Some r \<Rightarrow> if isSuccess r then Some r else None)"

text \<open>
  \<open>failureWithPrevious\<close> evaluates \<open>options.previous.pipe(Option.filter(isSuccess))\<close> first:
  when \<open>options.previous\<close> is \<open>undefined\<close> the call of \<open>.pipe\<close> raises a \<open>TypeError\<close>.
\<close>

definition failureWithPrevious ::
  "'e cause \<Rightarrow> ('a, 'e) options_argument \<Rightarrow> exn + ('a, 'e) result" where
  "failureWithPrevious c options =
     (case options_previous options of
        None \<Rightarrow> Inl TypeError
      | Some p \<Rightarrow> Inr (failure c (Some (filter_isSuccess p)) (options_waiting options)))"

definition failWithPrevious ::
  "'e \<Rightarrow> ('a, 'e) options_argument \<Rightarrow> exn + ('a, 'e) result" where
  "failWithPrevious error options = failureWithPrevious (CFail error) options"

definition fromExit :: "('a, 'e) exit \<Rightarrow> int \<Rightarrow> ('a, 'e) result" where
  "fromExit ex now =
     (case ex of ExitSuccess v \<Rightarrow> success v None None now
               | ExitFailure c \<Rightarrow> failure c None None)"

definition fromExitWithPrevious ::
  "('a, 'e) exit \<Rightarrow> ('a, 'e) result option \<Rightarrow> int \<Rightarrow> exn + ('a, 'e) result" where
  "fromExitWithPrevious ex prev now =
     (case ex of
        ExitSuccess v \<Rightarrow> Inr (success v None None now)
      | ExitFailure c \<Rightarrow>
          failureWithPrevious c (OptionsObject \<lparr>previous = prev, waiting = None\<rparr>))"

text \<open>\<open>Result.waiting\<close>: a copy of the Result with the flag set, or the Result itself.\<close>

fun set_waiting :: "('a, 'e) result \<Rightarrow> ('a, 'e) result" where
  "set_waiting (Initial w) = Initial True"
| "set_waiting (Success v w t) = Success v True t"
| "set_waiting (Failure c p w) = Failure c p True"

definition waiting_result :: "('a, 'e) result \<Rightarrow> ('a, 'e) result" where
  "waiting_result self = (if waiting_of self then self else set_waiting self)"

definition waitingFrom :: "('a, 'e) result option \<Rightarrow> ('a, 'e) result" where
  "waitingFrom prev =
     (case prev of None \<Rightarrow> initial (Some True) | Some p \<Rightarrow> waiting_result p)"

definition replacePrevious ::
  "('a, 'e) result \<Rightarrow> ('a, 'e) result option \<Rightarrow> exn + ('a, 'e) result" where
  "replacePrevious self prev =
     (case self of
        Failure c p w \<Rightarrow>
          failureWithPrevious c (OptionsObject \<lparr>previous = prev, waiting = Some w\<rparr>)
      | _ \<Rightarrow> Inr self)"

subsection \<open>Accessors\<close>

fun value_result :: "('a, 'e) result \<Rightarrow> 'a option" where
  "value_result (Success v w t) = Some v"
| "value_result (Failure c p w) = (case p of None \<Rightarrow> None | Some s \<Rightarrow> prop_value s)"
| "value_result (Initial w) = None"

definition getOrElse :: "('a, 'e) result \<Rightarrow> 'a \<Rightarrow> 'a" where
  "getOrElse self orElse = (case value_result self of None \<Rightarrow> orElse | Some v \<Rightarrow> v)"

definition getOrThrow :: "('a, 'e) result \<Rightarrow> exn + 'a" where
  "getOrThrow self =
     (case value_result self of None \<Rightarrow> Inl NoSuchElementException | Some v \<Rightarrow> Inr v)"

subsection \<open>Equality and hash\<close>

text \<open>
  The method \<open>[Equal.symbol]\<close> of \<open>ResultProto\<close>. It casts the other Result to the
  variant of this one and compares the payloads with \<open>Equal.equals\<close>, which is the
  equality of the model's values. A property the other Result does not have reads as
  \<open>undefined\<close>, and \<open>Equal.equals(x, undefined)\<close> holds exactly when \<open>x\<close> is \<open>undefined\<close>
  itself. The first argument of \<open>equals_payload\<close> is the payload that stands for
  \<open>undefined\<close> in the payload's type, \<open>None\<close> when the type has no such value;
  \<open>equals_result\<close> takes one for the values and one for the causes.
\<close>

definition equals_payload :: "'x option \<Rightarrow> 'x \<Rightarrow> 'x option \<Rightarrow> bool" where
  "equals_payload undefined_payload x y =
     (case y of Some y' \<Rightarrow> x = y' | None \<Rightarrow> undefined_payload = Some x)"

definition equals_result ::
  "'a option \<Rightarrow> 'e cause option \<Rightarrow> ('a, 'e) result \<Rightarrow> ('a, 'e) result \<Rightarrow> bool" where
  "equals_result undefined_value undefined_cause this that =
     (if tag_of this \<noteq> tag_of that \<and> waiting_of this \<noteq> waiting_of that then False
      else (case this of
              Initial w \<Rightarrow> True
            | Success v w t \<Rightarrow> equals_payload undefined_value v (prop_value that)
            | Failure c p w \<Rightarrow> equals_payload undefined_cause c (prop_cause that)))"

text \<open>
  The method \<open>[Hash.symbol]\<close>. \<open>Hash.string\<close>, \<open>Hash.hash\<close> and \<open>Hash.combine\<close> are functions
  of the effect library and are parameters here; \<open>Hash.cached\<close> returns the hash it stores.
\<close>

fun tag_string :: "tag \<Rightarrow> string" where
  "tag_string TagInitial = ''Initial''"
| "tag_string TagSuccess = ''Success''"
| "tag_string TagFailure = ''Failure''"

definition tag_waiting_string :: "('a, 'e) result \<Rightarrow> string" where
  "tag_waiting_string r =
     tag_string (tag_of r) @ '':'' @ (if waiting_of r then ''true'' else ''false'')"

definition hash_result ::
  "(string \<Rightarrow> int) \<Rightarrow> ('a \<Rightarrow> int) \<Rightarrow> ('e cause \<Rightarrow> int) \<Rightarrow> (int \<Rightarrow> int \<Rightarrow> int) \<Rightarrow>
   ('a, 'e) result \<Rightarrow> int" where
  "hash_result hash_string hash_value hash_cause combine r =
     (let tagHash = hash_string (tag_waiting_string r) in
      case r of
        Initial w \<Rightarrow> tagHash
      | Success v w t \<Rightarrow> combine tagHash (hash_value v)
      | Failure c p w \<Rightarrow> combine tagHash (hash_cause c))"

section \<open>Effect and stream atoms (packages/rx/src/Rx.ts)\<close>

text \<open>
  Modelled from the spec: the \<open>Context\<close> handed to a read function. Rx.ts declares its
  interface; its implementation is part of the registry, which is not among the sources.
  Of it the functions below use \<open>self()\<close>, the node's current value (\<open>None\<close> before the
  first one), and \<open>setSelfSync\<close>, which stores a value in the node. The field \<open>past\<close> is
  a ghost: every value the node held before the current one, the latest first.
\<close>

record ('a, 'e) ctx =
  self :: "('a, 'e) result option"
  past :: "('a, 'e) result list"

definition setSelfSync :: "('a, 'e) ctx \<Rightarrow> ('a, 'e) result \<Rightarrow> ('a, 'e) ctx" where
  "setSelfSync c a =
     \<lparr>self = Some a, past = (case self c of None \<Rightarrow> past c | Some old \<Rightarrow> old # past c)\<rparr>"

text \<open>Running a callback that computes a Result (and may raise) and stores it.\<close>

definition store_result ::
  "('a, 'e) ctx \<Rightarrow> exn + ('a, 'e) result \<Rightarrow> exn + ('a, 'e) ctx" where
  "store_result c r = (case r of Inl e \<Rightarrow> Inl e | Inr a \<Rightarrow> Inr (setSelfSync c a))"

subsection \<open>makeEffect\<close>

text \<open>
  \<open>makeEffect\<close> reads \<open>previous = ctx.self()\<close>, makes a scope and registers the finalizer
  that closes it, and hands the effect to \<open>runCallbackSync\<close> with a callback for its exit.
  \<open>runCallbackSync\<close> (\<open>internal/runtime\<close>) is not among the sources; what it did with the
  effect is the parameter \<open>mode\<close>. \<open>Synchronous ex now\<close>: the effect ended inside the call
  with the exit \<open>ex\<close> at the clock reading \<open>now\<close>, the callback has run before
  \<open>runCallbackSync\<close> returns, and there is nothing to cancel (it returns \<open>undefined\<close>).
  \<open>Forked\<close>: the effect runs on in a fiber, whose name is the parameter \<open>fiber\<close>;
  \<open>runCallbackSync\<close> returns the function that cancels it, which \<open>makeEffect\<close> registers
  as a second finalizer, and the callback waits for the fiber's exit.

  The result of \<open>makeEffect\<close> is the node as the call leaves it, the waiting callback
  with its fiber (if any), the finalizers registered, in order, and the Result returned.
\<close>

type_synonym ('a, 'e) exit_callback =
  "('a, 'e) exit \<Rightarrow> int \<Rightarrow> ('a, 'e) ctx \<Rightarrow> exn + ('a, 'e) ctx"

datatype finalizer = CloseScope | Cancel nat

datatype ('a, 'e) run_mode = Synchronous "('a, 'e) exit" int | Forked

type_synonym ('a, 'e) started =
  "('a, 'e) ctx \<times> (nat \<times> ('a, 'e) exit_callback) option \<times> finalizer list \<times> ('a, 'e) result"

definition effect_callback :: "('a, 'e) result option \<Rightarrow> ('a, 'e) exit_callback" where
  "effect_callback prev = (\<lambda>ex now c. store_result c (fromExitWithPrevious ex prev now))"

definition makeEffect ::
  "('a, 'e) ctx \<Rightarrow> ('a, 'e) result \<Rightarrow> ('a, 'e) run_mode \<Rightarrow> nat \<Rightarrow> exn + ('a, 'e) started" where
  "makeEffect c initialValue mode fiber =
     (let prev = self c;
          shown = (if prev \<noteq> None then waitingFrom prev else waiting_result initialValue)
      in case mode of
           Synchronous ex now \<Rightarrow>
             (case effect_callback prev ex now c of
                Inl e \<Rightarrow> Inl e
              | Inr c' \<Rightarrow> Inr (c', None, [CloseScope], shown))
         | Forked \<Rightarrow>
             Inr (c, Some (fiber, effect_callback prev), [CloseScope, Cancel fiber], shown))"

text \<open>
  The initial value of an effect atom: \<open>Result.success(options.initialValue)\<close> when the
  option is given, \<open>Result.initial()\<close> otherwise.
\<close>

definition initialValue_of :: "'a option \<Rightarrow> int \<Rightarrow> ('a, 'e) result" where
  "initialValue_of initialValue now =
     (case initialValue of Some v \<Rightarrow> success v None None now | None \<Rightarrow> initial None)"

text \<open>The function \<open>effect\<close>, the read function of \<open>Rx.make(effect)\<close>.\<close>

definition effect ::
  "('a, 'e) ctx \<Rightarrow> 'a option \<Rightarrow> int \<Rightarrow> ('a, 'e) run_mode \<Rightarrow> nat \<Rightarrow> exn + ('a, 'e) started" where
  "effect c initialValue now mode fiber = makeEffect c (initialValue_of initialValue now) mode fiber"

text \<open>
  The read function that \<open>makeResultFn\<close> builds for \<open>Rx.fn\<close>, for a function that returns
  an effect: \<open>counter\<close> is the number of calls so far (the first component of the value of
  \<open>argRx\<close>), \<open>initialValue\<close> the Result made when the atom was constructed. Before the first
  call no effect is started and nothing is registered.
\<close>

definition makeResultFn_read ::
  "('a, 'e) ctx \<Rightarrow> nat \<Rightarrow> ('a, 'e) result \<Rightarrow> ('a, 'e) run_mode \<Rightarrow> nat \<Rightarrow>
   exn + ('a, 'e) started" where
  "makeResultFn_read c counter initialValue mode fiber =
     (if counter = 0 then Inr (c, None, [], initialValue)
      else makeEffect c initialValue mode fiber)"

subsection \<open>makeStream\<close>

text \<open>
  The error type of a stream atom is \<open>E | NoSuchElementException\<close>.
\<close>

datatype 'e stream_error = NoSuchElement | StreamError 'e

text \<open>
  The callbacks of \<open>makeStream\<close>. On a failure exit, and on completion without a value,
  the callback passes \<open>previous\<close>, the \<open>Option\<close> read from \<open>ctx.self()\<close> before the stream
  started, as the second argument of \<open>failureWithPrevious\<close> and \<open>failWithPrevious\<close>.
\<close>

type_synonym ('a, 'e) item_callback =
  "'a \<Rightarrow> int \<Rightarrow> ('a, 'e stream_error) ctx \<Rightarrow> ('a, 'e stream_error) ctx"

definition stream_item_callback :: "('a, 'e) item_callback" where
  "stream_item_callback = (\<lambda>a now c. setSelfSync c (waiting_result (success a None None now)))"

definition stream_exit_callback ::
  "('a, 'e stream_error) result option \<Rightarrow>
   (unit, 'e) exit \<Rightarrow> int \<Rightarrow> ('a, 'e stream_error) ctx \<Rightarrow> exn + ('a, 'e stream_error) ctx" where
  "stream_exit_callback prev = (\<lambda>ex now c.
     (case ex of
        ExitFailure cause \<Rightarrow>
          store_result c
            (failureWithPrevious (map_cause StreamError cause) (OptionObject prev))
      | ExitSuccess u \<Rightarrow>
          (case Option.bind (self c) value_result of
             None \<Rightarrow> store_result c (failWithPrevious NoSuchElement (OptionObject prev))
           | Some a \<Rightarrow> Inr (setSelfSync c (success a None None now)))))"

definition makeStream ::
  "('a, 'e stream_error) ctx \<Rightarrow> ('a, 'e stream_error) result \<Rightarrow>
   ('a, 'e) item_callback \<times>
   ((unit, 'e) exit \<Rightarrow> int \<Rightarrow> ('a, 'e stream_error) ctx \<Rightarrow> exn + ('a, 'e stream_error) ctx) \<times>
   ('a, 'e stream_error) result" where
  "makeStream c initialValue =
     (let prev = self c in
      (stream_item_callback,
       stream_exit_callback prev,
       if prev \<noteq> None then waitingFrom prev else waiting_result initialValue))"

text \<open>
  \<open>makeStream\<close> hands the stream and the two callbacks to \<open>runCallbackSync\<close>
  (\<open>internal/runtime\<close>, not among the sources), and registers the function it gets back,
  if any, as a finalizer of the node. When the callbacks run is decided there and by the
  stream; both orders are modelled.

  \<open>run_stream\<close> is the run of a stream atom whose stream delivers after the read function
  has returned: the read function calls \<open>makeStream\<close>, the node takes the Result it
  returns (modelled from the spec: "computing a Node means invoking the Atom's read
  function"), then the stream delivers its items, each with the clock reading of its
  emission, and at last its exit.
\<close>

definition run_stream ::
  "('a, 'e stream_error) ctx \<Rightarrow> ('a, 'e stream_error) result \<Rightarrow> ('a \<times> int) list \<Rightarrow>
   (unit, 'e) exit \<Rightarrow> int \<Rightarrow> exn + ('a, 'e stream_error) ctx" where
  "run_stream c initialValue items ex now =
     (case makeStream c initialValue of
        (on_item, on_exit, shown) \<Rightarrow>
          on_exit ex now (foldl (\<lambda>c' (a, t). on_item a t c') (setSelfSync c shown) items))"

text \<open>The same run, stopped before the exit arrives.\<close>

definition run_stream_items ::
  "('a, 'e stream_error) ctx \<Rightarrow> ('a, 'e stream_error) result \<Rightarrow> ('a \<times> int) list \<Rightarrow>
   ('a, 'e stream_error) ctx" where
  "run_stream_items c initialValue items =
     (case makeStream c initialValue of
        (on_item, on_exit, shown) \<Rightarrow>
          foldl (\<lambda>c' (a, t). on_item a t c') (setSelfSync c shown) items)"

text \<open>
  \<open>run_stream_sync\<close> is the run of a stream that delivers everything inside the call of
  \<open>runCallbackSync\<close>: the item callbacks and the exit callback run on the node as
  \<open>makeStream\<close> found it, before \<open>makeStream\<close> returns. The result is the node after the
  callbacks together with the Result that \<open>makeStream\<close> returns.
\<close>

definition run_stream_sync ::
  "('a, 'e stream_error) ctx \<Rightarrow> ('a, 'e stream_error) result \<Rightarrow> ('a \<times> int) list \<Rightarrow>
   (unit, 'e) exit \<Rightarrow> int \<Rightarrow>
   exn + (('a, 'e stream_error) ctx \<times> ('a, 'e stream_error) result)" where
  "run_stream_sync c initialValue items ex now =
     (case makeStream c initialValue of
        (on_item, on_exit, shown) \<Rightarrow>
          (case on_exit ex now (foldl (\<lambda>c' (a, t). on_item a t c') c items) of
             Inl e \<Rightarrow> Inl e
           | Inr c' \<Rightarrow> Inr (c', shown)))"

definition empty_ctx :: "('a, 'e) ctx" where
  "empty_ctx = \<lparr>self = None, past = []\<rparr>"

subsection \<open>The node of an effect atom over time\<close>

text \<open>
  Modelled from the spec: the node of an atom that wraps an effect, as the registry (not
  among the sources) keeps it. Besides the value and its history (\<open>node_ctx\<close>) the node
  holds the finalizers that the current computation registered (\<open>registered\<close>). The model
  adds the callbacks whose fibers have not ended and were not cancelled (\<open>running\<close>, each
  with the name of its fiber), and the number of computations so far (\<open>fibers\<close>), which
  names the fiber of the next one.
\<close>

record ('a, 'e) effect_node =
  node_ctx :: "('a, 'e) ctx"
  running :: "(nat \<times> ('a, 'e) exit_callback) list"
  registered :: "finalizer list"
  fibers :: nat

definition empty_node :: "('a, 'e) effect_node" where
  "empty_node = \<lparr>node_ctx = empty_ctx, running = [], registered = [], fibers = 0\<rparr>"

text \<open>
  Modelled from the spec: "starting a new asynchronous computation for a Node must first
  run all finalizers registered by the previous computation". Running \<open>Cancel i\<close>
  interrupts the fiber \<open>i\<close>: it is live no longer and its callback is never called.
  \<open>CloseScope\<close> closes the scope of the effect, which touches neither the node nor a
  callback. A fiber whose cancel function was not registered stays live.
\<close>

definition run_finalizers :: "('a, 'e) effect_node \<Rightarrow> ('a, 'e) effect_node" where
  "run_finalizers n =
     n\<lparr>running := filter (\<lambda>(i, callback). Cancel i \<notin> set (registered n)) (running n),
       registered := []\<rparr>"

text \<open>
  Modelled from the spec: "computing a Node means invoking the Atom's read function", and
  the node takes the value that the read function returns, unless a value was stored in
  the node while the read function ran (by \<open>setSelfSync\<close>, for an effect that ends inside
  the call): then that value stands and the returned one is dropped. The repository's
  test "effectFn" reads a settled Success, not the waiting copy of the previous value,
  right after the call of an \<open>Rx.fn\<close> atom whose effect is \<open>Effect.succeed\<close>.
\<close>

definition take_result :: "('a, 'e) effect_node \<Rightarrow> ('a, 'e) started \<Rightarrow> ('a, 'e) effect_node" where
  "take_result n st =
     (case st of
        (c', forked, finalizers, shown) \<Rightarrow>
          n\<lparr>node_ctx := (if c' = node_ctx n then setSelfSync c' shown else c'),
            running := running n @ (case forked of None \<Rightarrow> [] | Some started \<Rightarrow> [started]),
            registered := finalizers,
            fibers := Suc (fibers n)\<rparr>)"

text \<open>
  Modelled from the spec: the events of such a node, which the registry and the runtime
  of the effects drive. \<open>Start\<close>: the node of an \<open>Rx.make(effect)\<close> atom is computed or
  recomputed: the finalizers of the previous computation run, then the read function
  \<open>effect\<close>, and the node takes its result. \<open>StartFn\<close>: the same for an \<open>Rx.fn\<close> atom, with
  the number of calls so far and the initial value made at the atom's construction.
  \<open>Finish\<close>: the fiber with the given name ends with an exit; its callback runs if the
  fiber is still live, and nothing happens otherwise.
\<close>

datatype ('a, 'e) event =
    Start "'a option" int "('a, 'e) run_mode"
  | StartFn nat "'a option" int "('a, 'e) run_mode"
  | Finish nat "('a, 'e) exit" int

fun step :: "('a, 'e) effect_node \<Rightarrow> ('a, 'e) event \<Rightarrow> exn + ('a, 'e) effect_node" where
  "step n (Start initialValue now mode) =
     (let n1 = run_finalizers n in
      case effect (node_ctx n1) initialValue now mode (fibers n1) of
        Inl e \<Rightarrow> Inl e
      | Inr st \<Rightarrow> Inr (take_result n1 st))"
| "step n (StartFn counter initialValue constructed mode) =
     (let n1 = run_finalizers n in
      case makeResultFn_read (node_ctx n1) counter (initialValue_of initialValue constructed)
             mode (fibers n1) of
        Inl e \<Rightarrow> Inl e
      | Inr st \<Rightarrow> Inr (take_result n1 st))"
| "step n (Finish fiber ex now) =
     (case map_of (running n) fiber of
        None \<Rightarrow> Inr n
      | Some callback \<Rightarrow>
          (case callback ex now (node_ctx n) of
             Inl e \<Rightarrow> Inl e
           | Inr c' \<Rightarrow>
               Inr (n\<lparr>node_ctx := c', running := filter (\<lambda>(i, cb). i \<noteq> fiber) (running n)\<rparr>)))"

fun run_events :: "('a, 'e) effect_node \<Rightarrow> ('a, 'e) event list \<Rightarrow> exn + ('a, 'e) effect_node" where
  "run_events n [] = Inr n"
| "run_events n (e # es) = (case step n e of Inl x \<Rightarrow> Inl x | Inr n' \<Rightarrow> run_events n' es)"






section \<open>Combinators (packages/rx/src/Rx.ts)\<close>

text \<open>
  The read function of \<open>withFallback(self, fallback)\<close>. \<open>get\<close> is the context's \<open>get\<close>: it
  returns the value of an atom and may change the registry (it records the dependency and
  computes the node when needed), so it passes a state along.
\<close>

definition withFallback ::
  "('atom \<Rightarrow> 's \<Rightarrow> ('a, 'e) result \<times> 's) \<Rightarrow> 'atom \<Rightarrow> 'atom \<Rightarrow> 's \<Rightarrow> ('a, 'e) result \<times> 's" where
  "withFallback get self_atom fallback s =
     (case get self_atom s of
        (result, s1) \<Rightarrow>
          if tag_of result = TagInitial
          then (case get fallback s1 of (fb, s2) \<Rightarrow> (waiting_result fb, s2))
          else (result, s1))"


section \<open>The registry: get, set, subscribe and batch\<close>

text \<open>
  The registry (\<open>internal/registry\<close>, imported by Rx.ts for \<open>batch\<close>) is not among the
  sources; the repository's tests call it. This section models it from the spec, for
  value atoms and for derived atoms that are a function of the values of other atoms.
  Left out: effects and streams (the sections above), write functions other than
  storing the value, refresh, finalizers, and the removal of idle nodes (no node is ever
  removed, as within one tick).
\<close>

text \<open>
  Modelled from the spec: an atom is an immutable definition, usable as the key of the
  node table. \<open>State l i k\<close> is the value atom \<open>make(i)\<close>; \<open>Readable l ds f k\<close> is the
  derived atom whose read function gets the atoms \<open>ds\<close>, in this order, and returns \<open>f\<close>
  of their values. The label \<open>l\<close> stands for the identity of the object (two atoms made
  by two calls are different atoms), \<open>k\<close> is the \<open>keepAlive\<close> mark. The edges that the spec
  keeps in a node (the atoms read during the last computation, and the reverse edges)
  are determined by the atom here: \<open>depends_on b a\<close> says that \<open>a\<close> is read, directly or
  through other atoms, by the read function of \<open>b\<close>.
\<close>

datatype 'v atom =
    State nat 'v bool
  | Readable nat "'v atom list" "'v list \<Rightarrow> 'v" bool

fun keepAlive :: "'v atom \<Rightarrow> bool" where
  "keepAlive (State l i k) = k"
| "keepAlive (Readable l ds f k) = k"

fun depends_on :: "'v atom \<Rightarrow> 'v atom \<Rightarrow> bool" where
  "depends_on (State l i k) a = False"
| "depends_on (Readable l ds f k) a = list_ex (\<lambda>d. d = a \<or> depends_on d a) ds"

text \<open>
  Modelled from the spec: a node holds the cached current value, the mark "dirty", the
  subscriber list (callbacks, by a number) and the mount count. The registry is the node
  table, in the order of creation, the batch depth counter and the nodes whose
  notification is queued. \<open>delivered\<close> and \<open>computed\<close> are ghost fields that record what an
  observer counts: each call of a subscriber's callback (node, callback, value) and each
  run of a read function.
\<close>

record 'v node =
  nvalue :: 'v
  dirty :: bool
  listeners :: "nat list"
  mounts :: nat

record 'v registry =
  nodes :: "('v atom \<times> 'v node) list"
  depth :: nat
  pending :: "'v atom list"
  delivered :: "('v atom \<times> nat \<times> 'v) list"
  computed :: "'v atom list"

definition empty_registry :: "'v registry" where
  "empty_registry = \<lparr>nodes = [], depth = 0, pending = [], delivered = [], computed = []\<rparr>"

definition lookup :: "'v registry \<Rightarrow> 'v atom \<Rightarrow> 'v node option" where
  "lookup r a = map_of (nodes r) a"

definition put :: "'v registry \<Rightarrow> 'v atom \<Rightarrow> 'v node \<Rightarrow> 'v registry" where
  "put r a n = r\<lparr>nodes := AList.update a n (nodes r)\<rparr>"

definition new_node :: "'v \<Rightarrow> 'v node" where
  "new_node v = \<lparr>nvalue = v, dirty = False, listeners = [], mounts = 0\<rparr>"

text \<open>
  Modelled from the spec: computing a node stores the value its read function returned
  and clears the mark.
\<close>

definition store_value :: "'v registry \<Rightarrow> 'v atom \<Rightarrow> 'v \<Rightarrow> 'v registry" where
  "store_value r a v =
     (put r a (case lookup r a of
                 None \<Rightarrow> new_node v
               | Some n \<Rightarrow> n\<lparr>nvalue := v, dirty := False\<rparr>))
       \<lparr>computed := computed r @ [a]\<rparr>"

definition needs_compute :: "'v registry \<Rightarrow> 'v atom \<Rightarrow> bool" where
  "needs_compute r a = (case lookup r a of None \<Rightarrow> True | Some n \<Rightarrow> dirty n)"

text \<open>
  Modelled from the spec: "\<open>get(atom)\<close> returns the Node's current value, computing it
  first if absent or marked dirty"; computing invokes the read function, which pulls the
  atoms it reads through the same \<open>get\<close>. Reads are lazy: nothing else is recomputed.
\<close>

fun get :: "'v registry \<Rightarrow> 'v atom \<Rightarrow> 'v \<times> 'v registry"
  and get_all :: "'v registry \<Rightarrow> 'v atom list \<Rightarrow> 'v list \<times> 'v registry" where
  "get r (State l i k) =
     (case lookup r (State l i k) of
        Some n \<Rightarrow> (nvalue n, r)
      | None \<Rightarrow> (i, store_value r (State l i k) i))"
| "get r (Readable l ds f k) =
     (case lookup r (Readable l ds f k) of
        Some n \<Rightarrow>
          if dirty n
          then (case get_all r ds of (vs, r1) \<Rightarrow> (f vs, store_value r1 (Readable l ds f k) (f vs)))
          else (nvalue n, r)
      | None \<Rightarrow>
          (case get_all r ds of (vs, r1) \<Rightarrow> (f vs, store_value r1 (Readable l ds f k) (f vs))))"
| "get_all r [] = ([], r)"
| "get_all r (a # as) =
     (case get r a of (v, r1) \<Rightarrow> (case get_all r1 as of (vs, r2) \<Rightarrow> (v # vs, r2)))"

text \<open>
  Modelled from the spec: \<open>set\<close> on a value atom stores the new value in its node (the
  node is created if absent). "Setting a value invalidates every transitive dependent:
  each dependent Node is marked dirty."
\<close>

definition write_value :: "'v registry \<Rightarrow> 'v atom \<Rightarrow> 'v \<Rightarrow> 'v registry" where
  "write_value r a v =
     put r a (case lookup r a of None \<Rightarrow> new_node v | Some n \<Rightarrow> n\<lparr>nvalue := v\<rparr>)"

definition invalidate :: "'v registry \<Rightarrow> 'v atom \<Rightarrow> 'v registry" where
  "invalidate r a =
     r\<lparr>nodes := map (\<lambda>(b, n). (b, if depends_on b a then n\<lparr>dirty := True\<rparr> else n)) (nodes r)\<rparr>"

text \<open>
  Modelled from the spec: a dependent that "has subscribers or is itself kept
  alive/mounted" is recomputed without waiting for a \<open>get\<close>; the others are recomputed
  "lazily on next get". The nodes queued by a write are the written node, if it has
  subscribers, and those dependents.
\<close>

definition listeners_of :: "'v registry \<Rightarrow> 'v atom \<Rightarrow> nat list" where
  "listeners_of r b = (case lookup r b of None \<Rightarrow> [] | Some n \<Rightarrow> listeners n)"

definition eager :: "'v registry \<Rightarrow> 'v atom \<Rightarrow> bool" where
  "eager r b =
     (case lookup r b of
        None \<Rightarrow> False
      | Some n \<Rightarrow> listeners n \<noteq> [] \<or> 0 < mounts n \<or> keepAlive b)"

definition affected :: "'v registry \<Rightarrow> 'v atom \<Rightarrow> 'v atom list" where
  "affected r a =
     filter (\<lambda>b. (b = a \<and> listeners_of r b \<noteq> []) \<or> (depends_on b a \<and> eager r b))
       (map fst (nodes r))"

text \<open>
  Modelled from the spec: "after invalidation, queued subscriber notifications fire,
  immediately if not inside a batch, or deferred until the outermost batch closes";
  "notifications for multiple writes inside one batch are coalesced to a single
  notification per Node". The queue is a set (\<open>remdups\<close>). Flushing it recomputes each
  queued node that is dirty and calls its subscribers with the value. The spec says both
  that such a dependent "is recomputed immediately" on a write and that two writes in
  one batch recompute a derived atom once; the model follows the second: inside a batch
  the recomputation of a queued node waits for the flush, unless a \<open>get\<close> asks for the
  value before. (In the repository's tests of \<open>batch\<close> the registry recomputes at the
  flush also a dependent that has no subscriber; the spec leaves such a node to the next
  \<open>get\<close>, and so does the model.)
\<close>

definition enqueue :: "'v registry \<Rightarrow> 'v atom list \<Rightarrow> 'v registry" where
  "enqueue r bs = r\<lparr>pending := remdups (pending r @ bs)\<rparr>"

definition deliver :: "'v registry \<Rightarrow> 'v atom \<Rightarrow> 'v \<Rightarrow> 'v registry" where
  "deliver r b v = r\<lparr>delivered := delivered r @ map (\<lambda>l. (b, l, v)) (listeners_of r b)\<rparr>"

definition flush_node :: "'v registry \<Rightarrow> 'v atom \<Rightarrow> 'v registry" where
  "flush_node r b = (case get r b of (v, r1) \<Rightarrow> deliver r1 b v)"

definition flush :: "'v registry \<Rightarrow> 'v registry" where
  "flush r = foldl flush_node (r\<lparr>pending := []\<rparr>) (pending r)"

text \<open>
  Modelled from the spec: \<open>set\<close> "invokes its write function with a write-context, which
  ultimately calls setSelf to store a new value in this Node", invalidates the
  dependents, and fires or queues the notifications. The write function of a value atom
  is \<open>constSetSelf\<close>, which stores the value. A \<open>Readable\<close> atom of this model is made by
  \<open>readable\<close>: it has no write function and the type \<open>Writable\<close> of the first parameter of
  \<open>set\<close> excludes it; the model leaves the registry as it is. The writable atoms of Rx.ts
  with other write functions (\<open>fnSync\<close>, \<open>fn\<close>, \<open>pull\<close>, \<open>subRef\<close>, and \<open>map\<close> or
  \<open>withFallback\<close> over a writable atom) are not atoms of this model: nothing below speaks
  of a \<open>set\<close> of them.
\<close>

fun set_atom :: "'v registry \<Rightarrow> 'v atom \<Rightarrow> 'v \<Rightarrow> 'v registry" where
  "set_atom r (State l i k) v =
     (let r1 = invalidate (write_value r (State l i k) v) (State l i k);
          r2 = enqueue r1 (affected r1 (State l i k))
      in if depth r2 = 0 then flush r2 else r2)"
| "set_atom r (Readable l ds f k) v = r"

text \<open>
  Modelled from the spec: \<open>subscribe\<close> creates and computes the node if needed, registers
  the callback and, with \<open>immediate\<close>, calls it once with the current value. \<open>mount\<close> keeps
  a node alive without a callback.
\<close>

definition subscribe :: "'v registry \<Rightarrow> 'v atom \<Rightarrow> nat \<Rightarrow> bool \<Rightarrow> 'v registry" where
  "subscribe r a l immediate =
     (case get r a of
        (v, r1) \<Rightarrow>
          (let r2 = (case lookup r1 a of
                       None \<Rightarrow> r1
                     | Some n \<Rightarrow> put r1 a (n\<lparr>listeners := listeners n @ [l]\<rparr>))
           in if immediate then r2\<lparr>delivered := delivered r2 @ [(a, l, v)]\<rparr> else r2))"

definition mount :: "'v registry \<Rightarrow> 'v atom \<Rightarrow> 'v registry" where
  "mount r a =
     (case get r a of
        (v, r1) \<Rightarrow>
          (case lookup r1 a of
             None \<Rightarrow> r1
           | Some n \<Rightarrow> put r1 a (n\<lparr>mounts := Suc (mounts n)\<rparr>)))"

text \<open>
  Modelled from the spec: "\<open>batch(f)\<close> runs \<open>f\<close> with notification delivery deferred;
  nested batches only flush once the outermost batch exits". The body \<open>f\<close> is a list of
  operations on the registry: writes, reads and nested batches.
\<close>

datatype 'v op = Set "'v atom" 'v | Get "'v atom" | Batch "'v op list"

fun run_op :: "'v registry \<Rightarrow> 'v op \<Rightarrow> 'v registry"
  and run_ops :: "'v registry \<Rightarrow> 'v op list \<Rightarrow> 'v registry" where
  "run_op r (Set a v) = set_atom r a v"
| "run_op r (Get a) = snd (get r a)"
| "run_op r (Batch body) =
     (let r1 = run_ops (r\<lparr>depth := Suc (depth r)\<rparr>) body;
          r2 = r1\<lparr>depth := depth r1 - 1\<rparr>
      in if depth r2 = 0 then flush r2 else r2)"
| "run_ops r [] = r"
| "run_ops r (x # xs) = run_ops (run_op r x) xs"

text \<open>
  The value of an atom as its definition gives it from the current values of the value
  atoms, without any cache: the value a read must observe.
\<close>

fun current :: "'v registry \<Rightarrow> 'v atom \<Rightarrow> 'v" where
  "current r (State l i k) =
     (case lookup r (State l i k) of None \<Rightarrow> i | Some n \<Rightarrow> nvalue n)"
| "current r (Readable l ds f k) = f (map (current r) ds)"

text \<open>The cache is coherent: every node that is not dirty holds that value.\<close>

definition coherent :: "'v registry \<Rightarrow> bool" where
  "coherent r = (\<forall>a n. lookup r a = Some n \<longrightarrow> \<not> dirty n \<longrightarrow> nvalue n = current r a)"

text \<open>The current value of the value atom \<open>State l i k\<close>.\<close>

definition state_val :: "'v registry \<Rightarrow> nat \<Rightarrow> 'v \<Rightarrow> bool \<Rightarrow> 'v" where
  "state_val r l i k = (case lookup r (State l i k) of None \<Rightarrow> i | Some n \<Rightarrow> nvalue n)"

definition same_states :: "'v registry \<Rightarrow> 'v registry \<Rightarrow> bool" where
  "same_states r r' = (\<forall>l i k. state_val r' l i k = state_val r l i k)"

text \<open>
  What an observer counts: the runs of the read function of \<open>d\<close> and the calls of the
  callback \<open>l\<close> subscribed to \<open>d\<close>.
\<close>

definition clean :: "'v registry \<Rightarrow> 'v atom \<Rightarrow> bool" where
  "clean r d = (case lookup r d of None \<Rightarrow> False | Some n \<Rightarrow> \<not> dirty n)"

definition recomputes :: "'v registry \<Rightarrow> 'v atom \<Rightarrow> nat" where
  "recomputes r d = count_list (computed r) d"

definition fired :: "'v registry \<Rightarrow> 'v atom \<Rightarrow> nat \<Rightarrow> nat" where
  "fired r d l = length (filter (\<lambda>(b, m, v). b = d \<and> m = l) (delivered r))"

text \<open>
  How one operation changes the number of runs of the read function of \<open>d\<close>: a clean
  node stays clean and is not recomputed; a node that is not clean is recomputed once if
  it is clean afterwards and not at all otherwise.
\<close>

definition recompute_step :: "'v atom \<Rightarrow> 'v registry \<Rightarrow> 'v registry \<Rightarrow> bool" where
  "recompute_step d r r' =
     (if clean r d then clean r' d \<and> recomputes r' d = recomputes r d
      else recomputes r' d = recomputes r d + (if clean r' d then 1 else 0))"

definition dirty_in :: "'v registry \<Rightarrow> 'v atom \<Rightarrow> bool" where
  "dirty_in r d = (case lookup r d of None \<Rightarrow> False | Some n \<Rightarrow> dirty n)"

text \<open>
  Batch bodies that only write (possibly in nested batches), and those among them with a
  write to a value atom that \<open>d\<close> depends on.
\<close>

fun writes_only :: "'v op \<Rightarrow> bool" where
  "writes_only (Set a v) = True"
| "writes_only (Get a) = False"
| "writes_only (Batch body) = list_all writes_only body"

fun touches :: "'v atom \<Rightarrow> 'v op \<Rightarrow> bool" where
  "touches d (Set (State l i k) v) = depends_on d (State l i k)"
| "touches d (Set (Readable l ds f k) v) = False"
| "touches d (Get a) = False"
| "touches d (Batch body) = list_ex (touches d) body"

text \<open>
  The atoms of the repository's test "batching", with numbers for the values: two value
  atoms and the derived atom that adds them, in the registry after one subscription to
  the derived atom.
\<close>

definition test_state :: "nat atom" where
  "test_state = State 0 1 True"

definition test_state2 :: "nat atom" where
  "test_state2 = State 1 10 True"

definition test_derived :: "nat atom" where
  "test_derived = Readable 2 [State 0 1 True, State 1 10 True] sum_list False"

definition test_registry :: "nat registry" where
  "test_registry = subscribe empty_registry test_derived 7 False"

section \<open>Properties of Result\<close>

lemma failureWithPrevious_defined:
  "failureWithPrevious c (OptionsObject \<lparr>previous = p, waiting = w\<rparr>)
     = Inr (failure c (Some (filter_isSuccess p)) w)"
  by (simp add: failureWithPrevious_def)

lemma fromExitWithPrevious_failure:
  "fromExitWithPrevious (ExitFailure c) prev now = Inr (Failure c (filter_isSuccess prev) False)"
  by (simp add: fromExitWithPrevious_def failureWithPrevious_def failure_def)

lemma fromExitWithPrevious_success:
  "fromExitWithPrevious (ExitSuccess v) prev now = Inr (Success v False now)"
  by (simp add: fromExitWithPrevious_def success_def)

lemma waiting_result_flag: "waiting_of (waiting_result r) = True"
  by (cases r) (simp_all add: waiting_result_def)


lemma hash_result_waiting_differs:
  assumes "hash_string ''Success:true'' \<noteq> hash_string ''Success:false''"
    and "\<And>a b x. combine a x = combine b x \<Longrightarrow> a = b"
  shows "hash_result hash_string hv hc combine (Success v True t)
           \<noteq> hash_result hash_string hv hc combine (Success v False t)"
  using assms by (auto simp: hash_result_def tag_waiting_string_def)

text \<open>
  A Success whose value is \<open>undefined\<close> compares equal to an Initial Result with the same
  flag: the value read from the Initial Result is \<open>undefined\<close> too.
\<close>

lemma equals_result_undefined_value:
  "equals_result (Some u) undefined_cause (Success u w t) (Initial w) = True"
  by (simp add: equals_result_def equals_payload_def)

lemma equals_result_defined_value:
  "undefined_value \<noteq> Some v \<Longrightarrow>
     equals_result undefined_value undefined_cause (Success v w t) (Initial w) = False"
  by (auto simp: equals_result_def equals_payload_def)

text \<open>
  C1. Two Results with the same tag and the same payload and different \<open>waiting\<close> flags
  must be unequal. The guard of the equality method joins its two tests with \<open>&&\<close>, so
  it rejects only when tag and flag both differ: a settled Success and its waiting copy
  compare equal under \<open>[Equal.symbol]\<close>, against the repository's test
  "considers waiting flag in equality".
\<close>

theorem C1_equals_settled_and_waiting_success:
  "equals_result undefined_value undefined_cause
       (success ''value'' None None 0 :: (string, 'e) result)
       (waiting_result (success ''value'' None None 0)) = True
   \<and> waiting_of (success ''value'' None None 0 :: (string, 'e) result)
       \<noteq> waiting_of (waiting_result (success ''value'' None None 0 :: (string, 'e) result))"
  by (simp add: equals_result_def equals_payload_def success_def waiting_result_def)

section \<open>Properties of stream atoms\<close>

lemma run_stream_items_last:
  "self (run_stream_items c iv (items @ [(a, t)])) = Some (Success a True t)"
  by (simp add: run_stream_items_def makeStream_def stream_item_callback_def setSelfSync_def
      success_def waiting_result_def Let_def)

lemma run_stream_completes:
  "run_stream c iv (items @ [(a, t)]) (ExitSuccess ()) now = Inr c' \<Longrightarrow>
     self c' = Some (Success a False now)"
  by (auto simp: run_stream_def makeStream_def stream_item_callback_def stream_exit_callback_def
      setSelfSync_def success_def waiting_result_def Let_def)

text \<open>
  A stream that ends inside the call without an item, on a node without a value: the exit
  callback finds no value in the node, whatever the initial value is, and raises as well.
\<close>

lemma run_stream_sync_no_item:
  "run_stream_sync (empty_ctx :: ('a, 'e stream_error) ctx) iv [] (ExitSuccess ()) now
     = Inl TypeError"
  by (simp add: run_stream_sync_def makeStream_def stream_exit_callback_def empty_ctx_def
      store_result_def failWithPrevious_def failureWithPrevious_def Let_def)

text \<open>
  C2. A stream that emits 1 and then fails with "boom", on a node without a value: the
  claim (and the repository's test "stream failure keeps previousSuccess") expects the
  node to end as a Failure whose \<open>previousSuccess\<close> is the Success of the item 1. The
  item is stored as a waiting Success, but the exit callback hands \<open>previous\<close> itself to
  \<open>failureWithPrevious\<close>, which reads the property \<open>previous\<close> of its argument: the
  callback raises and no Failure is stored, whether the stream delivers after the read
  function has returned or inside it.
\<close>

theorem C2_stream_failure_after_item:
  "self (run_stream_items (empty_ctx :: (nat, string stream_error) ctx) (Initial False) [(1, 10)])
     = Some (Success 1 True 10)
   \<and> run_stream (empty_ctx :: (nat, string stream_error) ctx) (Initial False) [(1, 10)]
        (ExitFailure (CFail ''boom'')) 20 = Inl TypeError
   \<and> run_stream_sync (empty_ctx :: (nat, string stream_error) ctx) (Initial False) [(1, 10)]
        (ExitFailure (CFail ''boom'')) 20 = Inl TypeError"
  by (simp add: run_stream_items_def run_stream_def run_stream_sync_def makeStream_def
      stream_item_callback_def stream_exit_callback_def setSelfSync_def success_def
      waiting_result_def empty_ctx_def store_result_def failureWithPrevious_def Let_def)


lemma effect_callback_total: "\<exists>c'. effect_callback prev ex now c = Inr c'"
  by (cases ex)
    (simp_all add: effect_callback_def fromExitWithPrevious_failure
      fromExitWithPrevious_success store_result_def)

lemma getOrThrow_raises_iff:
  "(getOrThrow r = Inl NoSuchElementException) = (value_result r = None)"
  by (simp add: getOrThrow_def split: option.splits)

text \<open>
  C3. The failure of a wrapped stream must reach the node as a \<open>Failure\<close> value that \<open>get\<close>
  returns. For every stream atom, every node state and every failure cause, the exit
  callback that \<open>makeStream\<close> installs raises a \<open>TypeError\<close> instead of storing a Failure.
\<close>

theorem C3_stream_failure_raises:
  "(case makeStream c iv of (on_item, on_exit, shown) \<Rightarrow> on_exit (ExitFailure cause) now c')
     = Inl TypeError"
  by (simp add: makeStream_def stream_exit_callback_def store_result_def
      failureWithPrevious_def Let_def)

section \<open>Properties of effect atoms\<close>

lemma set_waiting_waiting_result: "set_waiting (waiting_result p) = set_waiting p"
  by (cases p) (simp_all add: waiting_result_def)



















text \<open>
  The same calls with effects that run on in fibers: the node shows the waiting copy of
  its value while each runs, and the Failure carries the settled Success.
\<close>

lemma failure_with_previousSuccess_forked:
  "run_events (empty_node :: (nat, string) effect_node)
     [StartFn 0 None 0 Forked, StartFn 1 None 0 Forked, Finish 1 (ExitSuccess 0) 1,
      StartFn 2 None 0 Forked, Finish 2 (ExitFailure (CFail ''fail'')) 3]
   = Inr \<lparr>node_ctx = \<lparr>self = Some (Failure (CFail ''fail'') (Some (Success 0 False 1)) False),
                       past = [Success 0 True 1, Success 0 False 1, Initial True, Initial False]\<rparr>,
          running = [], registered = [CloseScope, Cancel 2], fibers = 3\<rparr>"
  by (simp add: makeResultFn_read_def initialValue_of_def makeEffect_def Let_def
      run_finalizers_def take_result_def empty_node_def
      effect_callback_def empty_ctx_def
      fromExitWithPrevious_failure fromExitWithPrevious_success store_result_def setSelfSync_def
      waitingFrom_def waiting_result_def initial_def filter_isSuccess_def isSuccess_def)


section \<open>Properties of the combinators\<close>

text \<open>
  C9. The read function of \<open>withFallback(self, fallback)\<close>: when the value of \<open>self\<close> is
  tagged Initial, the result is the value of the fallback atom with \<open>waiting\<close> set (the same
  Result up to that flag); otherwise it is the value of \<open>self\<close>, unchanged, and the
  fallback atom is not read.
\<close>

theorem C9_withFallback:
  "(tag_of (fst (ctx_get self_atom s)) = TagInitial \<longrightarrow>
      fst (withFallback ctx_get self_atom fallback s)
        = waiting_result (fst (ctx_get fallback (snd (ctx_get self_atom s))))
      \<and> waiting_of (fst (withFallback ctx_get self_atom fallback s)) = True
      \<and> set_waiting (fst (withFallback ctx_get self_atom fallback s))
          = set_waiting (fst (ctx_get fallback (snd (ctx_get self_atom s)))))
   \<and> (tag_of (fst (ctx_get self_atom s)) \<noteq> TagInitial \<longrightarrow>
      withFallback ctx_get self_atom fallback s = ctx_get self_atom s)"
  by (auto simp: withFallback_def waiting_result_flag set_waiting_waiting_result
      split: prod.splits)

theorem C9_withFallback_witness:
  "tag_of (fst ((\<lambda>a s. (if a = (0::nat) then Initial True else Success (7::nat) False 5, Suc s))
       0 (0::nat)) :: (nat, string) result) = TagInitial
   \<and> fst (withFallback
        (\<lambda>a s. (if a = (0::nat) then Initial True else Success (7::nat) False 5, Suc s)) 0 1 (0::nat))
      = (Success 7 True 5 :: (nat, string) result)
   \<and> tag_of (fst ((\<lambda>a s. (if a = (0::nat) then Initial True else Success (7::nat) False 5, Suc s))
       1 (0::nat)) :: (nat, string) result) \<noteq> TagInitial
   \<and> withFallback
        (\<lambda>a s. (if a = (0::nat) then Initial True else Success (7::nat) False 5, Suc s)) 1 0 (0::nat)
      = (Success 7 False 5 :: (nat, string) result, 1)"
  using C9_withFallback
    [of "\<lambda>a s. (if a = (0::nat) then Initial True else (Success (7::nat) False 5 :: (nat, string) result), Suc s)"
        0 "0::nat" 1]
    C9_withFallback
    [of "\<lambda>a s. (if a = (0::nat) then Initial True else (Success (7::nat) False 5 :: (nat, string) result), Suc s)"
        1 "0::nat" 0]
  by (simp add: waiting_result_def)



section \<open>Properties of the registry\<close>

lemma same_states_refl: "same_states r r"
  by (simp add: same_states_def)

lemma same_states_trans: "same_states r r1 \<Longrightarrow> same_states r1 r2 \<Longrightarrow> same_states r r2"
  by (simp add: same_states_def)

lemma current_same_states: "same_states r r' \<Longrightarrow> current r' a = current r a"
proof (induction r a rule: current.induct)
  case (1 r l i k)
  then show ?case by (simp add: same_states_def state_val_def)
next
  case (2 r l ds f k)
  then have "map (current r') ds = map (current r) ds" by simp
  then show ?case by (simp only: current.simps)
qed

lemma current_same_states_fun: "same_states r r' \<Longrightarrow> current r' = current r"
  by (rule ext) (rule current_same_states)

lemma lookup_put: "lookup (put r a n) b = (if b = a then Some n else lookup r b)"
  by (simp add: lookup_def put_def update_conv')

lemma lookup_computed_update [simp]: "lookup (r\<lparr>computed := c\<rparr>) b = lookup r b"
  by (simp add: lookup_def)

lemma lookup_store_value:
  "lookup (store_value r a v) b =
     (if b = a then Some (case lookup r a of None \<Rightarrow> new_node v
                                            | Some n \<Rightarrow> n\<lparr>nvalue := v, dirty := False\<rparr>)
      else lookup r b)"
  by (simp add: store_value_def lookup_put)

lemma store_value_frame:
  "depth (store_value r a v) = depth r"
  "pending (store_value r a v) = pending r"
  "delivered (store_value r a v) = delivered r"
  "computed (store_value r a v) = computed r @ [a]"
  by (simp_all add: store_value_def put_def)

lemma coherent_store_value:
  assumes "coherent r" and "v = current r a"
  shows "coherent (store_value r a v)" and "same_states r (store_value r a v)"
proof -
  show ss: "same_states r (store_value r a v)"
    unfolding same_states_def state_val_def
    using assms(2)
    by (auto simp: lookup_store_value new_node_def split: option.splits)
  show "coherent (store_value r a v)"
    unfolding coherent_def
  proof (intro allI impI)
    fix b n
    assume l: "lookup (store_value r a v) b = Some n" and d: "\<not> dirty n"
    show "nvalue n = current (store_value r a v) b"
    proof (cases "b = a")
      case True
      then have "nvalue n = v" using l
        by (auto simp: lookup_store_value new_node_def split: option.splits)
      then show ?thesis using assms(2) True current_same_states[OF ss] by simp
    next
      case False
      then have "lookup r b = Some n" using l by (simp add: lookup_store_value)
      then have "nvalue n = current r b" using assms(1) d by (simp add: coherent_def)
      then show ?thesis using current_same_states[OF ss] by simp
    qed
  qed
qed

lemma get_correct:
  "coherent r \<Longrightarrow>
     fst (get r a) = current r a \<and> coherent (snd (get r a)) \<and> same_states r (snd (get r a))"
  "coherent r \<Longrightarrow>
     fst (get_all r as) = map (current r) as \<and> coherent (snd (get_all r as))
     \<and> same_states r (snd (get_all r as))"
proof (induction r a and r as rule: get_get_all.induct)
  case (1 r l i k)
  show ?case
  proof (cases "lookup r (State l i k)")
    case None
    then show ?thesis using 1 coherent_store_value[of r i "State l i k"]
      by simp
  next
    case (Some n)
    then show ?thesis using 1 by (simp add: same_states_refl)
  qed
next
  case (2 r l ds f k)
  let ?a = "Readable l ds f k"
  show ?case
  proof (cases "needs_compute r ?a")
    case False
    then obtain n where n: "lookup r ?a = Some n" "\<not> dirty n"
      by (auto simp: needs_compute_def split: option.splits)
    then have "nvalue n = current r ?a" using "2.prems" unfolding coherent_def by blast
    then show ?thesis using n "2.prems" by (simp add: same_states_refl)
  next
    case True
    obtain vs r1 where g: "get_all r ds = (vs, r1)" by (cases "get_all r ds")
    have ih: "vs = map (current r) ds \<and> coherent r1 \<and> same_states r r1"
    proof (cases "lookup r ?a")
      case None
      then show ?thesis using "2.IH"(1)[OF None "2.prems"] g by simp
    next
      case (Some n)
      then have "dirty n" using True by (simp add: needs_compute_def)
      then show ?thesis using "2.IH"(2)[OF Some _ "2.prems"] g by simp
    qed
    have v: "f vs = current r1 ?a"
      using ih current_same_states_fun[of r r1] by simp
    have res: "get r ?a = (f vs, store_value r1 ?a (f vs))"
      using True g by (auto simp: needs_compute_def split: option.splits)
    have "coherent (store_value r1 ?a (f vs))" "same_states r1 (store_value r1 ?a (f vs))"
      using coherent_store_value[OF _ v] ih by simp_all
    then show ?thesis using res ih v current_same_states_fun[of r r1]
      by (auto intro: same_states_trans)
  qed
next
  case (3 r)
  then show ?case by (simp add: same_states_refl)
next
  case (4 r a as)
  obtain v r1 where g: "get r a = (v, r1)" by (cases "get r a")
  obtain vs r2 where ga: "get_all r1 as = (vs, r2)" by (cases "get_all r1 as")
  have 1: "v = current r a" "coherent r1" "same_states r r1"
    using "4.IH"(1)[OF "4.prems"] g by simp_all
  have 2: "vs = map (current r1) as" "coherent r2" "same_states r1 r2"
    using "4.IH"(2)[OF g[symmetric] 1(2)] ga by simp_all
  show ?case using g ga 1 2 current_same_states_fun[OF 1(3)]
    by (auto intro: same_states_trans)
qed

lemma map_of_map_keyed:
  "map_of (map (\<lambda>(b, n). (b, g b n)) xs) b = map_option (g b) (map_of xs b)"
  by (induction xs) auto

lemma lookup_invalidate:
  "lookup (invalidate r a) b =
     map_option (\<lambda>n. if depends_on b a then n\<lparr>dirty := True\<rparr> else n) (lookup r b)"
  by (simp add: lookup_def invalidate_def map_of_map_keyed)

lemma lookup_write_value:
  "lookup (write_value r a v) b =
     (if b = a then Some (case lookup r a of None \<Rightarrow> new_node v | Some n \<Rightarrow> n\<lparr>nvalue := v\<rparr>)
      else lookup r b)"
  by (simp add: write_value_def lookup_put)

lemma lookup_enqueue [simp]: "lookup (enqueue r bs) b = lookup r b"
  by (simp add: lookup_def enqueue_def)

lemma lookup_deliver [simp]: "lookup (deliver r b v) c = lookup r c"
  by (simp add: lookup_def deliver_def)

lemma lookup_pending_update [simp]: "lookup (r\<lparr>pending := p\<rparr>) b = lookup r b"
  by (simp add: lookup_def)

lemma lookup_depth_update [simp]: "lookup (r\<lparr>depth := p\<rparr>) b = lookup r b"
  by (simp add: lookup_def)

lemma lookup_delivered_update [simp]: "lookup (r\<lparr>delivered := p\<rparr>) b = lookup r b"
  by (simp add: lookup_def)

lemma same_states_lookup: "(\<And>b. lookup r' b = lookup r b) \<Longrightarrow> same_states r r'"
  by (simp add: same_states_def state_val_def)

lemma coherent_lookup:
  assumes "coherent r" and "\<And>b. lookup r' b = lookup r b"
  shows "coherent r'"
proof -
  have "current r' = current r"
    using same_states_lookup[of r' r] assms(2) by (simp add: current_same_states_fun)
  then show ?thesis using assms by (simp add: coherent_def)
qed

lemma current_independent:
  assumes "\<And>l i k. State l i k \<noteq> a \<Longrightarrow> state_val r' l i k = state_val r l i k"
  shows "b \<noteq> a \<Longrightarrow> \<not> depends_on b a \<Longrightarrow> current r' b = current r b"
proof (induction b)
  case (State l i k)
  then show ?case using assms[of l i k] by (simp add: state_val_def)
next
  case (Readable l ds f k)
  have "\<forall>d\<in>set ds. d \<noteq> a \<and> \<not> depends_on d a"
    using Readable.prems(2) by (auto simp: list_ex_iff)
  then have "map (current r') ds = map (current r) ds"
    using Readable.IH by simp
  then show ?case by (simp only: current.simps)
qed

text \<open>The registry after the write and the invalidation, before any notification.\<close>

lemma written_state_val:
  "state_val (invalidate (write_value r (State l i k) v) (State l i k)) l' i' k' =
     (if State l' i' k' = State l i k then v else state_val r l' i' k')"
  by (auto simp: state_val_def lookup_invalidate lookup_write_value new_node_def
      split: option.splits)

lemma coherent_written:
  assumes "coherent r"
  shows "coherent (invalidate (write_value r (State l i k) v) (State l i k))"
  unfolding coherent_def
proof (intro allI impI)
  let ?a = "State l i k"
  let ?r = "invalidate (write_value r ?a v) ?a"
  fix b n
  assume l: "lookup ?r b = Some n" and d: "\<not> dirty n"
  show "nvalue n = current ?r b"
  proof (cases "b = ?a")
    case True
    then have "nvalue n = v" using l
      by (auto simp: lookup_invalidate lookup_write_value new_node_def split: option.splits)
    moreover have "current ?r ?a = v"
      using written_state_val[of r l i k v l i k] by (simp add: state_val_def)
    ultimately show ?thesis using True by simp
  next
    case False
    have nd: "\<not> depends_on b ?a"
    proof
      assume "depends_on b ?a"
      then obtain m where "n = m\<lparr>dirty := True\<rparr>"
        using l by (auto simp: lookup_invalidate)
      then have "dirty n" by simp
      then show False using d by simp
    qed
    then have "lookup r b = Some n"
      using l False by (auto simp: lookup_invalidate lookup_write_value)
    then have "nvalue n = current r b" using assms d by (simp add: coherent_def)
    moreover have "state_val ?r la ia ka = state_val r la ia ka"
      if "State la ia ka \<noteq> State l i k" for la ia ka
      by (simp only: written_state_val that if_False)
    then have "current ?r b = current r b"
      using current_independent[of ?a ?r r b] False nd by blast
    ultimately show ?thesis by simp
  qed
qed

lemma flush_node_correct:
  assumes "coherent r"
  shows "coherent (flush_node r b)" and "same_states r (flush_node r b)"
proof -
  obtain v r1 where g: "get r b = (v, r1)" by (cases "get r b")
  have 1: "coherent r1" "same_states r r1" using get_correct(1)[OF assms, of b] g by simp_all
  have f: "flush_node r b = deliver r1 b v" using g by (simp add: flush_node_def)
  show "coherent (flush_node r b)" using coherent_lookup[OF 1(1), of "deliver r1 b v"] f by simp
  show "same_states r (flush_node r b)"
    using same_states_trans[OF 1(2) same_states_lookup[of "deliver r1 b v" r1]] f by simp
qed

lemma foldl_flush_node_correct:
  "coherent r \<Longrightarrow>
     coherent (foldl flush_node r bs) \<and> same_states r (foldl flush_node r bs)"
proof (induction bs arbitrary: r)
  case Nil
  then show ?case by (simp add: same_states_refl)
next
  case (Cons b bs)
  have 1: "coherent (flush_node r b)" "same_states r (flush_node r b)"
    using flush_node_correct[OF Cons.prems] by simp_all
  show ?case using Cons.IH[OF 1(1)] 1(2) by (auto intro: same_states_trans)
qed

lemma flush_correct:
  assumes "coherent r"
  shows "coherent (flush r)" and "same_states r (flush r)"
proof -
  have c: "coherent (r\<lparr>pending := []\<rparr>)" using coherent_lookup[OF assms] by simp
  have s: "same_states r (r\<lparr>pending := []\<rparr>)" by (rule same_states_lookup) simp
  show "coherent (flush r)" using foldl_flush_node_correct[OF c] by (simp add: flush_def)
  show "same_states r (flush r)"
    using foldl_flush_node_correct[OF c, of "pending r"] s
    by (auto simp: flush_def intro: same_states_trans)
qed

lemma set_atom_correct:
  assumes "coherent r"
  shows "coherent (set_atom r a v)"
    and "state_val (set_atom r (State l i k) v) l' i' k' =
           (if State l' i' k' = State l i k then v else state_val r l' i' k')"
proof -
  show "coherent (set_atom r a v)"
  proof (cases a)
    case (State l i k)
    let ?r1 = "invalidate (write_value r a v) a"
    let ?r2 = "enqueue ?r1 (affected ?r1 a)"
    have "coherent ?r1" using coherent_written[OF assms] State by simp
    then have c2: "coherent ?r2" by (rule coherent_lookup) simp
    show ?thesis using c2 flush_correct(1)[OF c2] State by (simp add: Let_def)
  next
    case (Readable l ds f k)
    then show ?thesis using assms by simp
  qed
next
  let ?a = "State l i k"
  let ?r1 = "invalidate (write_value r ?a v) ?a"
  let ?r2 = "enqueue ?r1 (affected ?r1 ?a)"
  have c2: "coherent ?r2"
    using coherent_lookup[OF coherent_written[OF assms, of l i k v], of ?r2] by simp
  have s2: "state_val ?r2 l' i' k' = state_val ?r1 l' i' k'" by (simp add: state_val_def)
  have s3: "state_val (flush ?r2) l' i' k' = state_val ?r2 l' i' k'"
    using flush_correct(2)[OF c2] by (simp add: same_states_def)
  have w: "state_val ?r1 l' i' k' = (if State l' i' k' = ?a then v else state_val r l' i' k')"
    by (rule written_state_val)
  have "set_atom r ?a v = (if depth ?r2 = 0 then flush ?r2 else ?r2)"
    by (simp add: Let_def)
  then have "state_val (set_atom r ?a v) l' i' k' = state_val ?r1 l' i' k'"
    using s2 s3 by (cases "depth ?r2 = 0") simp_all
  then show "state_val (set_atom r ?a v) l' i' k' =
           (if State l' i' k' = ?a then v else state_val r l' i' k')"
    using w by (simp only:)
qed

lemma run_op_coherent:
  "coherent r \<Longrightarrow> coherent (run_op r x)"
  "coherent r \<Longrightarrow> coherent (run_ops r xs)"
proof (induction r x and r xs rule: run_op_run_ops.induct)
  case (1 r a v)
  then show ?case by (simp add: set_atom_correct(1))
next
  case (2 r a)
  then show ?case using get_correct(1)[of r a] by simp
next
  case (3 r body)
  let ?r0 = "r\<lparr>depth := Suc (depth r)\<rparr>"
  have "coherent ?r0" using coherent_lookup[OF "3.prems"] by simp
  then have c1: "coherent (run_ops ?r0 body)" using "3.IH" by simp
  have c2: "coherent ((run_ops ?r0 body)\<lparr>depth := x\<rparr>)" for x
    using coherent_lookup[OF c1] by simp
  have c3: "coherent (flush ((run_ops ?r0 body)\<lparr>depth := x\<rparr>))" for x
    by (rule flush_correct(1)[OF c2])
  show ?case using c2 c3 by (simp add: Let_def)
next
  case (4 r)
  then show ?case by simp
next
  case (5 r x xs)
  then show ?case by simp
qed

lemma coherent_empty: "coherent empty_registry"
  by (simp add: coherent_def lookup_def empty_registry_def)

lemma subscribe_coherent:
  assumes "coherent r"
  shows "coherent (subscribe r a l imm)"
proof -
  obtain v r1 where g: "get r a = (v, r1)" by (cases "get r a")
  have c1: "coherent r1" using get_correct(1)[OF assms, of a] g by simp
  have c2: "coherent (put r1 a (n\<lparr>listeners := listeners n @ [l]\<rparr>))" if "lookup r1 a = Some n" for n
    unfolding coherent_def
  proof (intro allI impI)
    let ?r = "put r1 a (n\<lparr>listeners := listeners n @ [l]\<rparr>)"
    fix b m
    assume l: "lookup ?r b = Some m" and d: "\<not> dirty m"
    have ss: "same_states r1 ?r"
      using that by (auto simp: same_states_def state_val_def lookup_put)
    have "\<exists>m'. lookup r1 b = Some m' \<and> \<not> dirty m' \<and> nvalue m' = nvalue m"
      using l d that by (auto simp: lookup_put split: if_splits)
    then show "nvalue m = current ?r b"
      using c1 current_same_states[OF ss] by (auto simp: coherent_def)
  qed
  show ?thesis
    using g c1 c2 by (auto simp: subscribe_def Let_def split: option.splits intro: coherent_lookup)
qed

text \<open>Frame properties of get.\<close>

lemma listeners_of_store_value [simp]:
  "listeners_of (store_value r a v) b = listeners_of r b"
  by (auto simp: listeners_of_def lookup_store_value new_node_def split: option.splits)

lemma get_frame:
  "depth (snd (get r a)) = depth r \<and> pending (snd (get r a)) = pending r
     \<and> delivered (snd (get r a)) = delivered r
     \<and> (\<forall>b. listeners_of (snd (get r a)) b = listeners_of r b)"
  "depth (snd (get_all r as)) = depth r \<and> pending (snd (get_all r as)) = pending r
     \<and> delivered (snd (get_all r as)) = delivered r
     \<and> (\<forall>b. listeners_of (snd (get_all r as)) b = listeners_of r b)"
proof (induction r a and r as rule: get_get_all.induct)
  case (1 r l i k)
  then show ?case by (simp add: store_value_frame split: option.splits)
next
  case (2 r l ds f k)
  then show ?case
    by (auto simp: store_value_frame split: option.splits prod.splits)
next
  case (3 r)
  then show ?case by simp
next
  case (4 r a as)
  obtain v r1 where g: "get r a = (v, r1)" by (cases "get r a")
  obtain vs r2 where ga: "get_all r1 as = (vs, r2)" by (cases "get_all r1 as")
  show ?case using "4.IH"(1) "4.IH"(2)[OF g[symmetric]] g ga by simp
qed

text \<open>An atom does not occur among the atoms its read function gets.\<close>

lemma size_dep: "d \<in> set ds \<Longrightarrow> size d < size (Readable l ds f k)"
  using size_list_estimation'[of d ds "size d" size] by simp

lemma get_lookup_larger:
  "size a < size b \<Longrightarrow> lookup (snd (get r a)) b = lookup r b \<and> count_list (computed (snd (get r a))) b = count_list (computed r) b"
  "(\<forall>x\<in>set as. size x < size b) \<Longrightarrow> lookup (snd (get_all r as)) b = lookup r b \<and> count_list (computed (snd (get_all r as))) b = count_list (computed r) b"
proof (induction r a and r as rule: get_get_all.induct)
  case (1 r l i k)
  then show ?case by (auto simp: lookup_store_value store_value_frame split: option.splits)
next
  case (2 r l ds f k)
  have ds: "\<forall>x\<in>set ds. size x < size b"
    using "2.prems" size_dep[of _ ds l f k] by fastforce
  have ne: "b \<noteq> Readable l ds f k" using "2.prems" by auto
  show ?case
  proof (cases "lookup r (Readable l ds f k)")
    case None
    then show ?thesis using "2.IH"(1)[OF None ds] ne
      by (auto simp: lookup_store_value store_value_frame split: prod.splits)
  next
    case (Some n)
    show ?thesis
    proof (cases "dirty n")
      case True
      then show ?thesis using "2.IH"(2)[OF Some True ds] ne Some
        by (auto simp: lookup_store_value store_value_frame split: prod.splits)
    next
      case False
      then show ?thesis using Some by simp
    qed
  qed
next
  case (3 r)
  then show ?case by simp
next
  case (4 r a as)
  obtain v r1 where g: "get r a = (v, r1)" by (cases "get r a")
  obtain vs r2 where ga: "get_all r1 as = (vs, r2)" by (cases "get_all r1 as")
  show ?case using "4.IH"(1) "4.IH"(2)[OF g[symmetric]] "4.prems" g ga by simp
qed

lemma recompute_step_refl: "recompute_step d r r"
  by (simp add: recompute_step_def)

lemma recompute_step_trans:
  "recompute_step d r r1 \<Longrightarrow> recompute_step d r1 r2 \<Longrightarrow> recompute_step d r r2"
  by (auto simp: recompute_step_def split: if_splits)

lemma recompute_step_eq:
  "(lookup r' d = lookup r d) \<Longrightarrow> computed r' = computed r \<Longrightarrow> recompute_step d r r'"
  by (simp add: recompute_step_def clean_def recomputes_def)

lemma recompute_step_store_value:
  assumes "\<not> clean r a"
  shows "recompute_step d r (store_value r a v)"
  using assms
  by (auto simp: recompute_step_def clean_def recomputes_def lookup_store_value
      store_value_frame new_node_def split: option.splits)

lemma get_recompute_step:
  "recompute_step d r (snd (get r a))"
  "recompute_step d r (snd (get_all r as))"
proof (induction r a and r as rule: get_get_all.induct)
  case (1 r l i k)
  show ?case
  proof (cases "lookup r (State l i k)")
    case None
    then have "\<not> clean r (State l i k)" by (simp add: clean_def)
    then show ?thesis using None recompute_step_store_value by simp
  next
    case (Some n)
    then show ?thesis by (simp add: recompute_step_refl)
  qed
next
  case (2 r l ds f k)
  let ?a = "Readable l ds f k"
  show ?case
  proof (cases "needs_compute r ?a")
    case False
    then show ?thesis
      by (auto simp: needs_compute_def recompute_step_refl split: option.splits)
  next
    case True
    obtain vs r1 where g: "get_all r ds = (vs, r1)" by (cases "get_all r ds")
    have res: "get r ?a = (f vs, store_value r1 ?a (f vs))"
      using True g by (auto simp: needs_compute_def split: option.splits)
    have ih: "recompute_step d r r1"
    proof (cases "lookup r ?a")
      case None
      then show ?thesis using "2.IH"(1)[OF None] g by simp
    next
      case (Some n)
      then have "dirty n" using True by (simp add: needs_compute_def)
      then show ?thesis using "2.IH"(2)[OF Some] g by simp
    qed
    have "\<forall>x\<in>set ds. size x < size ?a" using size_dep by blast
    then have "lookup r1 ?a = lookup r ?a"
      using get_lookup_larger(2)[where as=ds and b="?a" and r=r] g by simp
    then have "\<not> clean r1 ?a"
      using True by (auto simp: clean_def needs_compute_def split: option.splits)
    then have "recompute_step d r1 (store_value r1 ?a (f vs))"
      by (rule recompute_step_store_value)
    then show ?thesis using res ih by (auto intro: recompute_step_trans)
  qed
next
  case (3 r)
  then show ?case by (simp add: recompute_step_refl)
next
  case (4 r a as)
  obtain v r1 where g: "get r a = (v, r1)" by (cases "get r a")
  obtain vs r2 where ga: "get_all r1 as = (vs, r2)" by (cases "get_all r1 as")
  show ?case using "4.IH"(1) "4.IH"(2)[OF g[symmetric]] g ga
    by (auto intro: recompute_step_trans)
qed

lemma get_readable_clean: "clean (snd (get r (Readable l ds f k))) (Readable l ds f k)"
  by (auto simp: clean_def lookup_store_value new_node_def split: option.splits prod.splits)

text \<open>Delivery of notifications.\<close>

lemma fired_deliver:
  "fired (deliver r b v) d l = fired r d l + (if b = d then count_list (listeners_of r b) l else 0)"
proof -
  have "length (filter (\<lambda>(b', m, v'). b' = d \<and> m = l) (map (\<lambda>m. (b, m, v)) ls))
      = (if b = d then count_list ls l else 0)" for ls
    by (induction ls) auto
  then show ?thesis by (simp add: fired_def deliver_def)
qed

lemma flush_node_frame:
  "depth (flush_node r b) = depth r"
  "pending (flush_node r b) = pending r"
  "listeners_of (flush_node r b) c = listeners_of r c"
  "fired (flush_node r b) d l = fired r d l + (if b = d then count_list (listeners_of r d) l else 0)"
  "recompute_step d r (flush_node r b)"
proof -
  obtain v r1 where g: "get r b = (v, r1)" by (cases "get r b")
  have f: "flush_node r b = deliver r1 b v" using g by (simp add: flush_node_def)
  have fr: "depth r1 = depth r" "pending r1 = pending r" "delivered r1 = delivered r"
    "\<And>c. listeners_of r1 c = listeners_of r c"
    using get_frame(1)[where r=r and a=b] g by simp_all
  show "depth (flush_node r b) = depth r" using f fr by (simp add: deliver_def)
  show "pending (flush_node r b) = pending r" using f fr by (simp add: deliver_def)
  show "listeners_of (flush_node r b) c = listeners_of r c"
    using f fr by (simp add: listeners_of_def)
  have "fired r1 d l = fired r d l" using fr by (simp add: fired_def)
  then show "fired (flush_node r b) d l
      = fired r d l + (if b = d then count_list (listeners_of r d) l else 0)"
    using f fr fired_deliver[of r1 b v d l] by simp
  have "recompute_step d r r1" using get_recompute_step(1)[where d=d and r=r and a=b] g by simp
  moreover have "recompute_step d r1 (deliver r1 b v)"
    by (rule recompute_step_eq) (simp_all add: deliver_def)
  ultimately show "recompute_step d r (flush_node r b)"
    using f by (auto intro: recompute_step_trans)
qed

lemma foldl_flush_node_frame:
  "depth (foldl flush_node r bs) = depth r
   \<and> pending (foldl flush_node r bs) = pending r
   \<and> (\<forall>c. listeners_of (foldl flush_node r bs) c = listeners_of r c)
   \<and> recompute_step d r (foldl flush_node r bs)"
proof (induction bs arbitrary: r)
  case Nil
  then show ?case by (simp add: recompute_step_refl)
next
  case (Cons b bs)
  have "recompute_step d r (foldl flush_node (flush_node r b) bs)"
    using Cons.IH[of "flush_node r b"] flush_node_frame(5)[where r=r and b=b and d=d]
    by (blast intro: recompute_step_trans)
  then show ?case
    using Cons.IH[of "flush_node r b"] flush_node_frame(1,2,3)[where r=r and b=b]
    by simp
qed

lemma foldl_flush_node_fired:
  "distinct bs \<Longrightarrow>
   fired (foldl flush_node r bs) d l
     = fired r d l + (if d \<in> set bs then count_list (listeners_of r d) l else 0)"
proof (induction bs arbitrary: r)
  case Nil
  then show ?case by simp
next
  case (Cons b bs)
  have "distinct bs" using Cons.prems by simp
  from Cons.IH[OF this, of "flush_node r b"] flush_node_frame(3,4)[where r=r and b=b]
  show ?case using Cons.prems by auto
qed

lemma foldl_flush_node_clean:
  "Readable l ds f k \<in> set bs \<Longrightarrow> clean (foldl flush_node r bs) (Readable l ds f k)"
proof (induction bs arbitrary: r)
  case Nil
  then show ?case by simp
next
  case (Cons b bs)
  let ?d = "Readable l ds f k"
  show ?case
  proof (cases "?d \<in> set bs")
    case True
    then show ?thesis using Cons.IH by simp
  next
    case False
    then have b: "b = ?d" using Cons.prems by simp
    obtain v r1 where g: "get r ?d = (v, r1)" by (cases "get r ?d")
    have "clean r1 ?d" using get_readable_clean[of r l ds f k] g by simp
    then have "clean (flush_node r b) ?d"
      using b g by (simp add: flush_node_def clean_def)
    moreover have "recompute_step ?d (flush_node r b) (foldl flush_node (flush_node r b) bs)"
      using foldl_flush_node_frame by blast
    ultimately show ?thesis by (simp add: recompute_step_def)
  qed
qed

lemma flush_frame:
  "depth (flush r) = depth r"
  "pending (flush r) = []"
  "listeners_of (flush r) c = listeners_of r c"
  "recompute_step d r (flush r)"
  "distinct (pending r) \<Longrightarrow>
     fired (flush r) d l
       = fired r d l + (if d \<in> set (pending r) then count_list (listeners_of r d) l else 0)"
  "Readable l' ds f k \<in> set (pending r) \<Longrightarrow> clean (flush r) (Readable l' ds f k)"
proof -
  let ?r0 = "r\<lparr>pending := []\<rparr>"
  have fr: "depth (flush r) = depth ?r0" "pending (flush r) = pending ?r0"
    "\<And>c. listeners_of (flush r) c = listeners_of ?r0 c" "recompute_step d ?r0 (flush r)"
    using foldl_flush_node_frame[where r="?r0" and bs="pending r" and d=d] by (simp_all add: flush_def)
  show "depth (flush r) = depth r" using fr by simp
  show "pending (flush r) = []" using fr by simp
  show "listeners_of (flush r) c = listeners_of r c" using fr by (simp add: listeners_of_def)
  have "recompute_step d r ?r0" by (rule recompute_step_eq) simp_all
  then show "recompute_step d r (flush r)" using fr(4) by (rule recompute_step_trans)
  show "fired (flush r) d l
       = fired r d l + (if d \<in> set (pending r) then count_list (listeners_of r d) l else 0)"
    if "distinct (pending r)"
    using foldl_flush_node_fired[OF that, where r="?r0" and d=d and l=l]
    by (simp add: flush_def fired_def listeners_of_def)
  show "clean (flush r) (Readable l' ds f k)" if "Readable l' ds f k \<in> set (pending r)"
    using foldl_flush_node_clean[OF that, where r="?r0"] by (simp add: flush_def)
qed

lemma touches_not_state: "\<not> touches (State l i k) x"
proof (induction x)
  case (Set a v)
  show ?case by (cases a) simp_all
next
  case (Get a)
  show ?case by simp
next
  case (Batch body)
  then show ?case by (simp add: list_ex_iff)
qed

lemma count_list_distinct: "distinct xs \<Longrightarrow> x \<in> set xs \<Longrightarrow> count_list xs x = 1"
  by (induction xs) auto

lemma listeners_of_written [simp]:
  "listeners_of (invalidate (write_value r a v) a) c = listeners_of r c"
  by (auto simp: listeners_of_def lookup_invalidate lookup_write_value new_node_def
      split: option.splits)

lemma listeners_of_enqueue [simp]: "listeners_of (enqueue r bs) c = listeners_of r c"
  by (simp add: listeners_of_def)

lemma set_atom_frame:
  "depth (set_atom r a v) = depth r"
  "listeners_of (set_atom r a v) c = listeners_of r c"
  "distinct (pending r) \<Longrightarrow> distinct (pending (set_atom r a v))"
  "0 < depth r \<Longrightarrow> delivered (set_atom r a v) = delivered r"
  "0 < depth r \<Longrightarrow> computed (set_atom r a v) = computed r"
proof -
  have d: "depth (enqueue (invalidate (write_value r a v) a) bs) = depth r" for bs
    by (simp add: enqueue_def invalidate_def write_value_def put_def)
  show "depth (set_atom r a v) = depth r"
    using d by (cases a) (simp_all add: Let_def flush_frame(1))
  show "listeners_of (set_atom r a v) c = listeners_of r c"
    by (cases a) (simp_all add: Let_def flush_frame(3))
  show "distinct (pending (set_atom r a v))" if "distinct (pending r)"
    using that by (cases a) (simp_all add: Let_def flush_frame(2) enqueue_def)
  show "delivered (set_atom r a v) = delivered r" if "0 < depth r"
    using that d
    by (cases a) (simp_all add: Let_def, simp add: enqueue_def invalidate_def write_value_def put_def)
  show "computed (set_atom r a v) = computed r" if "0 < depth r"
    using that d
    by (cases a) (simp_all add: Let_def, simp add: enqueue_def invalidate_def write_value_def put_def)
qed

lemma listeners_of_depth_update [simp]: "listeners_of (r\<lparr>depth := x\<rparr>) c = listeners_of r c"
  by (simp add: listeners_of_def)

lemma run_op_frame:
  "depth (run_op r x) = depth r
   \<and> (\<forall>c. listeners_of (run_op r x) c = listeners_of r c)
   \<and> (distinct (pending r) \<longrightarrow> distinct (pending (run_op r x)))
   \<and> (0 < depth r \<longrightarrow> delivered (run_op r x) = delivered r)"
  "depth (run_ops r xs) = depth r
   \<and> (\<forall>c. listeners_of (run_ops r xs) c = listeners_of r c)
   \<and> (distinct (pending r) \<longrightarrow> distinct (pending (run_ops r xs)))
   \<and> (0 < depth r \<longrightarrow> delivered (run_ops r xs) = delivered r)"
proof (induction r x and r xs rule: run_op_run_ops.induct)
  case (1 r a v)
  then show ?case by (simp add: set_atom_frame)
next
  case (2 r a)
  then show ?case using get_frame(1)[where r=r and a=a] by simp
next
  case (3 r body)
  let ?r1 = "run_ops (r\<lparr>depth := Suc (depth r)\<rparr>) body"
  have ih: "depth ?r1 = Suc (depth r)" "\<And>c. listeners_of ?r1 c = listeners_of r c"
    "distinct (pending r) \<longrightarrow> distinct (pending ?r1)" "delivered ?r1 = delivered r"
    using "3.IH" by simp_all
  let ?r2 = "?r1\<lparr>depth := depth r\<rparr>"
  have r: "run_op r (Batch body) = (if depth r = 0 then flush ?r2 else ?r2)"
    by (simp only: run_op.simps Let_def ih(1)) simp
  show ?case
  proof (cases "depth r = 0")
    case True
    then show ?thesis using r ih flush_frame(1,2,3)[where r="?r2"] by simp
  next
    case False
    then show ?thesis using r ih by simp
  qed
next
  case (4 r)
  then show ?case by simp
next
  case (5 r x xs)
  then show ?case by simp
qed

lemma writes_only_in_batch:
  "0 < depth r \<Longrightarrow> listeners_of r d \<noteq> [] \<Longrightarrow> writes_only x \<Longrightarrow>
     computed (run_op r x) = computed r
     \<and> (dirty_in r d \<longrightarrow> dirty_in (run_op r x) d)
     \<and> (d \<in> set (pending r) \<longrightarrow> d \<in> set (pending (run_op r x)))
     \<and> (touches d x \<longrightarrow> dirty_in (run_op r x) d \<and> d \<in> set (pending (run_op r x)))"
  "0 < depth r \<Longrightarrow> listeners_of r d \<noteq> [] \<Longrightarrow> list_all writes_only xs \<Longrightarrow>
     computed (run_ops r xs) = computed r
     \<and> (dirty_in r d \<longrightarrow> dirty_in (run_ops r xs) d)
     \<and> (d \<in> set (pending r) \<longrightarrow> d \<in> set (pending (run_ops r xs)))
     \<and> (list_ex (touches d) xs \<longrightarrow> dirty_in (run_ops r xs) d \<and> d \<in> set (pending (run_ops r xs)))"
proof (induction r x and r xs rule: run_op_run_ops.induct)
  case (1 r a v)
  show ?case
  proof (cases a)
    case (Readable l ds f k)
    then show ?thesis by simp
  next
    case (State l i k)
    let ?r1 = "invalidate (write_value r a v) a"
    let ?r2 = "enqueue ?r1 (affected ?r1 a)"
    have dp: "depth ?r2 = depth r"
      by (simp add: enqueue_def invalidate_def write_value_def put_def)
    have s: "set_atom r a v = ?r2" using "1.prems"(1) dp State by (simp add: Let_def)
    obtain n where n: "lookup r d = Some n" "listeners n \<noteq> []"
      using "1.prems"(2) by (auto simp: listeners_of_def split: option.splits)
    have c: "computed ?r2 = computed r"
      by (simp add: enqueue_def invalidate_def write_value_def put_def)
    have l1: "lookup ?r1 d = Some (if d = a then n\<lparr>nvalue := v\<rparr>
        else if depends_on d a then n\<lparr>dirty := True\<rparr> else n)"
      using n State by (auto simp: lookup_invalidate lookup_write_value)
    have di: "dirty_in r d \<longrightarrow> dirty_in ?r2 d"
      using n l1 by (simp add: dirty_in_def)
    have pe: "d \<in> set (pending r) \<longrightarrow> d \<in> set (pending ?r2)"
      by (simp add: enqueue_def invalidate_def write_value_def put_def)
    have to: "dirty_in ?r2 d \<and> d \<in> set (pending ?r2)" if t: "depends_on d a"
    proof -
      have da: "d \<noteq> a" using t State by (cases d) auto
      have 1: "dirty_in ?r2 d" using l1 t da by (simp add: dirty_in_def)
      have "d \<in> set (map fst (nodes ?r1))"
        using l1 by (metis lookup_def map_of_SomeD image_eqI fst_conv set_map)
      moreover have "eager ?r1 d"
        using l1 n(2) by (auto simp: eager_def)
      ultimately have "d \<in> set (affected ?r1 a)" using t by (simp add: affected_def)
      then show ?thesis using 1 by (simp add: enqueue_def)
    qed
    show ?thesis using s c di pe to State by simp
  qed
next
  case (2 r a)
  then show ?case by simp
next
  case (3 r body)
  let ?r0 = "r\<lparr>depth := Suc (depth r)\<rparr>"
  let ?r1 = "run_ops ?r0 body"
  have ih: "computed ?r1 = computed r"
    "dirty_in r d \<longrightarrow> dirty_in ?r1 d"
    "d \<in> set (pending r) \<longrightarrow> d \<in> set (pending ?r1)"
    "list_ex (touches d) body \<longrightarrow> dirty_in ?r1 d \<and> d \<in> set (pending ?r1)"
    using "3.IH"[of ] "3.prems" by (simp_all add: dirty_in_def)
  have dp: "depth ?r1 = Suc (depth r)" using run_op_frame(2)[where r="?r0" and xs=body] by simp
  have r: "run_op r (Batch body) = ?r1\<lparr>depth := depth r\<rparr>"
    using "3.prems"(1) by (simp only: run_op.simps Let_def dp) simp
  show ?case using r ih by (simp add: dirty_in_def)
next
  case (4 r)
  then show ?case by simp
next
  case (5 r x xs)
  let ?r1 = "run_op r x"
  have fr: "0 < depth ?r1" "listeners_of ?r1 d \<noteq> []"
    using run_op_frame(1)[where r=r and x=x] "5.prems" by simp_all
  have 1: "computed ?r1 = computed r"
    "dirty_in r d \<longrightarrow> dirty_in ?r1 d"
    "d \<in> set (pending r) \<longrightarrow> d \<in> set (pending ?r1)"
    "touches d x \<longrightarrow> dirty_in ?r1 d \<and> d \<in> set (pending ?r1)"
    using "5.IH"(1) "5.prems" by simp_all
  have 2: "computed (run_ops ?r1 xs) = computed ?r1"
    "dirty_in ?r1 d \<longrightarrow> dirty_in (run_ops ?r1 xs) d"
    "d \<in> set (pending ?r1) \<longrightarrow> d \<in> set (pending (run_ops ?r1 xs))"
    "list_ex (touches d) xs \<longrightarrow> dirty_in (run_ops ?r1 xs) d \<and> d \<in> set (pending (run_ops ?r1 xs))"
    using "5.IH"(2)[OF fr] "5.prems" by simp_all
  show ?case using 1 2 by auto
qed

text \<open>
  The cache of the model is right after a write of a value atom: in a registry whose
  cache is coherent, at any batch depth (so also inside a batch, after earlier writes of
  the same batch), a \<open>get\<close> of any atom right after a \<open>set\<close> of a value atom returns the
  value that the atom's definition gives from the values after the write: the written
  atom has the new value and every other value atom has the value it had. Coherence
  holds in the empty registry and is kept by every operation (\<open>coherent_empty\<close>,
  \<open>run_op_coherent\<close>, \<open>subscribe_coherent\<close>). This is a property of value atoms only: the
  model has no atom with another write function.
\<close>

lemma get_after_set_value_atom:
  assumes "coherent r"
  shows "fst (get (set_atom r (State l i k) v) d) = current (set_atom r (State l i k) v) d
    \<and> current (set_atom r (State l i k) v) (State l i k) = v
    \<and> (\<forall>l' i' k'. State l' i' k' \<noteq> State l i k \<longrightarrow>
          current (set_atom r (State l i k) v) (State l' i' k') = current r (State l' i' k'))"
proof -
  have c: "coherent (set_atom r (State l i k) v)" by (rule set_atom_correct(1)[OF assms])
  have s: "\<And>l' i' k'. current (set_atom r (State l i k) v) (State l' i' k')
      = (if State l' i' k' = State l i k then v else current r (State l' i' k'))"
    using set_atom_correct(2)[OF assms, of l i k v] by (simp add: state_val_def)
  show ?thesis using get_correct(1)[OF c, of d] s by simp
qed

lemmas registry_eval =
  test_state_def test_state2_def test_derived_def test_registry_def subscribe_def
  empty_registry_def lookup_def store_value_def put_def new_node_def write_value_def
  invalidate_def enqueue_def affected_def eager_def listeners_of_def flush_def
  flush_node_def deliver_def Let_def

text \<open>
  The test "read correct updated state in batch": inside a batch (depth 1), after the
  write of 2 to the first value atom, the derived atom reads 2 + 10.
\<close>

lemma get_after_set_in_batch:
  "coherent (test_registry\<lparr>depth := 1\<rparr>)
   \<and> fst (get (set_atom (test_registry\<lparr>depth := 1\<rparr>) (State 0 1 True) 2) test_derived) = 12
   \<and> current (set_atom (test_registry\<lparr>depth := 1\<rparr>) (State 0 1 True) 2) (State 0 1 True) = 2"
proof -
  have "coherent test_registry"
    unfolding test_registry_def by (rule subscribe_coherent[OF coherent_empty])
  then have c: "coherent (test_registry\<lparr>depth := 1\<rparr>)"
    by (rule coherent_lookup) simp
  have "current (set_atom (test_registry\<lparr>depth := 1\<rparr>) (State 0 1 True) 2) test_derived = 12"
    by (simp add: registry_eval)
  then show ?thesis
    using c get_after_set_value_atom[OF c, of 0 1 True 2 test_derived] by simp
qed

text \<open>
  C5. Batch coalescing, for a derived atom \<open>d\<close> that is computed and has the subscriber
  \<open>l\<close>, in a registry outside any batch. (1) Whatever the body of a batch does, writes,
  reads and nested batches, the subscriber is called at most once by the whole batch.
  (2) No notification is delivered while a batch is open: operations run at a positive
  depth leave the delivered notifications as they are. (3) When the body only writes,
  in nested batches or not, and at least one write is to an atom \<open>d\<close> depends on, the read
  function of \<open>d\<close> runs exactly once and the subscriber is called exactly once; two
  writes to the two dependencies of a derived atom are such a body.
\<close>

theorem C5_batch_coalescing:
  assumes "depth r = 0" and "pending r = []"
    and "lookup r d = Some n" and "\<not> dirty n"
    and "l \<in> set (listeners n)" and "distinct (listeners n)"
  shows "fired (run_op r (Batch body)) d l \<le> fired r d l + 1
    \<and> (\<forall>r' xs. 0 < depth r' \<longrightarrow> delivered (run_ops r' xs) = delivered r')
    \<and> (list_all writes_only body \<and> list_ex (touches d) body \<longrightarrow>
           recomputes (run_op r (Batch body)) d = recomputes r d + 1
           \<and> fired (run_op r (Batch body)) d l = fired r d l + 1)"
proof -
  let ?r0 = "r\<lparr>depth := Suc (depth r)\<rparr>"
  let ?r1 = "run_ops ?r0 body"
  let ?r2 = "?r1\<lparr>depth := 0\<rparr>"
  have fr: "depth ?r1 = Suc 0" "\<And>c. listeners_of ?r1 c = listeners_of r c"
    "distinct (pending ?r1)" "delivered ?r1 = delivered r"
    using run_op_frame(2)[where r="?r0" and xs=body] assms(1,2) by simp_all
  have res: "run_op r (Batch body) = flush ?r2"
    by (simp only: run_op.simps Let_def fr(1)) simp
  have ls: "listeners_of ?r2 d = listeners n"
    using fr(2)[of d] assms(3) by (simp add: listeners_of_def)
  have cnt: "count_list (listeners n) l = 1"
    using assms(5,6) by (simp add: count_list_distinct)
  have fi: "fired (flush ?r2) d l
      = fired r d l + (if d \<in> set (pending ?r1) then 1 else 0)"
    using flush_frame(5)[where r="?r2" and d=d and l=l] fr(3,4) ls cnt by (simp add: fired_def)
  have p1: "fired (run_op r (Batch body)) d l \<le> fired r d l + 1"
    using res fi by simp
  have p2: "\<forall>r' xs. 0 < depth r' \<longrightarrow> delivered (run_ops r' xs) = delivered r'"
    using run_op_frame(2) by blast
  have p3: "list_all writes_only body \<and> list_ex (touches d) body \<longrightarrow>
           recomputes (run_op r (Batch body)) d = recomputes r d + 1
           \<and> fired (run_op r (Batch body)) d l = fired r d l + 1"
  proof
    assume b: "list_all writes_only body \<and> list_ex (touches d) body"
    have l0: "listeners_of ?r0 d \<noteq> []" using assms(3,5) by (auto simp: listeners_of_def)
    have w: "computed ?r1 = computed r" "dirty_in ?r1 d" "d \<in> set (pending ?r1)"
      using writes_only_in_batch(2)[where r="?r0" and d=d and xs=body] l0 b by simp_all
    have "\<exists>l' ds f k. d = Readable l' ds f k"
    proof (cases d)
      case (State l' i k)
      then have False using b touches_not_state[of l' i k] by (auto simp: list_ex_iff)
      then show ?thesis ..
    next
      case (Readable l' ds f k)
      then show ?thesis by blast
    qed
    then obtain l' ds f k where d: "d = Readable l' ds f k" by blast
    have nc: "\<not> clean ?r2 d" using w(2) by (auto simp: clean_def dirty_in_def split: option.splits)
    have cl: "clean (flush ?r2) d" using flush_frame(6)[where r="?r2"] w(3) d by simp
    have "recompute_step d ?r2 (flush ?r2)" by (rule flush_frame(4))
    then have "recomputes (flush ?r2) d = recomputes ?r2 d + 1"
      using nc cl by (simp add: recompute_step_def)
    then have "recomputes (run_op r (Batch body)) d = recomputes r d + 1"
      using res w(1) by (simp add: recomputes_def)
    then show "recomputes (run_op r (Batch body)) d = recomputes r d + 1
           \<and> fired (run_op r (Batch body)) d l = fired r d l + 1"
      using res fi w(3) by simp
  qed
show ?thesis using p1 p2 p3 by blast
qed

text \<open>
  The test "batching" with a subscriber: two writes to the two dependencies in one
  batch; the derived atom, computed once before, is computed a second time and the
  subscriber is called once, with the sum of the two new values.
\<close>

theorem C5_batch_coalescing_witness:
  "depth test_registry = 0 \<and> pending test_registry = []
   \<and> lookup test_registry test_derived
       = Some \<lparr>nvalue = 11, dirty = False, listeners = [7], mounts = 0\<rparr>
   \<and> list_all writes_only [Set test_state 2, Set test_state2 20]
   \<and> list_ex (touches test_derived) [Set test_state 2, Set test_state2 20]
   \<and> recomputes test_registry test_derived = 1
   \<and> recomputes (run_op test_registry (Batch [Set test_state 2, Set test_state2 20])) test_derived = 2
   \<and> fired (run_op test_registry (Batch [Set test_state 2, Set test_state2 20])) test_derived 7 = 1
   \<and> delivered (run_op test_registry (Batch [Set test_state 2, Set test_state2 20]))
       = [(test_derived, 7, 22)]"
proof -
  have h1: "depth test_registry = 0" by (simp add: registry_eval)
  have h2: "pending test_registry = []" by (simp add: registry_eval)
  have h3: "lookup test_registry test_derived
      = Some \<lparr>nvalue = 11, dirty = False, listeners = [7], mounts = 0\<rparr>"
    by (simp add: registry_eval)
  have h4: "\<not> dirty \<lparr>nvalue = 11::nat, dirty = False, listeners = [7], mounts = 0\<rparr>" by simp
  have h5: "7 \<in> set (listeners \<lparr>nvalue = 11::nat, dirty = False, listeners = [7], mounts = 0\<rparr>)"
    by simp
  have h6: "distinct (listeners \<lparr>nvalue = 11::nat, dirty = False, listeners = [7], mounts = 0\<rparr>)"
    by simp
  let ?body = "[Set test_state 2, Set test_state2 20]"
  have b1: "list_all writes_only ?body"
    by (simp add: test_state_def test_state2_def test_derived_def)
  have b2: "list_ex (touches test_derived) ?body"
    by (simp add: test_state_def test_state2_def test_derived_def)
  have r0: "recomputes test_registry test_derived = 1"
    by (simp add: registry_eval recomputes_def)
  have f0: "fired test_registry test_derived 7 = 0"
    by (simp add: registry_eval fired_def)
  have d: "delivered (run_op test_registry (Batch ?body)) = [(test_derived, 7, 22)]"
    by (simp add: registry_eval)
  from C5_batch_coalescing[OF h1 h2 h3 h4 h5 h6, of ?body] b1 b2
  have "recomputes (run_op test_registry (Batch ?body)) test_derived
          = recomputes test_registry test_derived + 1"
    and "fired (run_op test_registry (Batch ?body)) test_derived 7
          = fired test_registry test_derived 7 + 1"
    by blast+
  then have e1: "recomputes (run_op test_registry (Batch ?body)) test_derived = 2"
    and e2: "fired (run_op test_registry (Batch ?body)) test_derived 7 = 1"
    using r0 f0 by linarith+
  show ?thesis
    by (intro conjI) (rule h1 h2 h3 b1 b2 r0 e1 e2 d)+
qed

end
